theory Spec2Isabelle
  imports Complex_Main "HOL-Library.Word"
begin

unbundle bit_operations_syntax

section \<open>The canvas of \<^verbatim>\<open>ascii_art.c\<close>\<close>

text \<open>
  \<^verbatim>\<open>#define ART_WIDTH 50\<close>, \<^verbatim>\<open>#define ART_HEIGHT 15\<close>, \<^verbatim>\<open>#define MAX_WORKERS 2\<close>.
\<close>

definition ART_WIDTH :: nat where
  "ART_WIDTH = 50"

definition ART_HEIGHT :: nat where
  "ART_HEIGHT = 15"

definition MAX_WORKERS :: nat where
  "MAX_WORKERS = 2"

text \<open>
  \<^verbatim>\<open>char canvas[ART_HEIGHT][ART_WIDTH]\<close>: a list of rows, each a list of characters.
  The C array has its size by type; on lists it is the predicate \<open>wf_canvas\<close>.
\<close>

type_synonym canvas = "char list list"

definition wf_canvas :: "canvas \<Rightarrow> bool" where
  "wf_canvas c = (length c = ART_HEIGHT \<and> list_all (\<lambda>row. length row = ART_WIDTH) c)"

definition blank :: char where
  "blank = CHR '' ''"

definition blank_canvas :: canvas where
  "blank_canvas = replicate ART_HEIGHT (replicate ART_WIDTH blank)"

text \<open>The read \<^verbatim>\<open>canvas[y][x]\<close> and the store \<^verbatim>\<open>canvas[y][x] = v\<close>.\<close>

definition cell :: "canvas \<Rightarrow> nat \<Rightarrow> nat \<Rightarrow> char" where
  "cell c y x = c ! y ! x"

definition set_cell :: "nat \<Rightarrow> nat \<Rightarrow> char \<Rightarrow> canvas \<Rightarrow> canvas" where
  "set_cell y x v c = c[y := (c ! y)[x := v]]"

text \<open>
  The counting loop \<^verbatim>\<open>for (int i = a; i < n; i++) body\<close>, the only kind of \<^verbatim>\<open>for\<close> in
  the program. The counter runs over \<open>0 .. n\<close> with \<open>n \<le> 50\<close>, so it is a \<open>nat\<close>.
\<close>

function for_loop :: "nat \<Rightarrow> nat \<Rightarrow> (nat \<Rightarrow> 's \<Rightarrow> 's) \<Rightarrow> 's \<Rightarrow> 's" where
  "for_loop i n body s = (if i < n then for_loop (Suc i) n body (body i s) else s)"
  by pat_completeness auto
termination
  by (relation "measure (\<lambda>(i, n, body, s). n - i)") auto

declare for_loop.simps [simp del]

text \<open>
  \<^verbatim>\<open>void clear_canvas()\<close>, lines 30 to 36: every cell of the shared canvas becomes a space.
\<close>

definition clear_canvas :: "canvas \<Rightarrow> canvas" where
  "clear_canvas c =
     for_loop 0 ART_HEIGHT (\<lambda>y. for_loop 0 ART_WIDTH (\<lambda>x. set_cell y x blank)) c"

text \<open>
  \<^verbatim>\<open>void print_canvas()\<close>, lines 39 to 48: the text written to standard output. The
  canvas is only read.
\<close>

definition print_canvas :: "canvas \<Rightarrow> string" where
  "print_canvas c =
     for_loop 0 ART_HEIGHT
       (\<lambda>y out. for_loop 0 ART_WIDTH (\<lambda>x out. out @ [cell c y x]) out @ [CHR 0x0A])
       (CHR 0x0A # ''====== ASCII ART ======'' @ [CHR 0x0A])
     @ ''======================'' @ [CHR 0x0A, CHR 0x0A]"

subsection \<open>Shapes\<close>

text \<open>
  The four locals \<^verbatim>\<open>center_x\<close>, \<^verbatim>\<open>center_y\<close>, \<^verbatim>\<open>radius\<close> and \<^verbatim>\<open>color\<close> of
  \<^verbatim>\<open>draw_random_shape\<close>; the first three are C \<^verbatim>\<open>int\<close>s.
\<close>

record shape =
  center_x :: int
  center_y :: int
  radius :: int
  color :: char

text \<open>\<^verbatim>\<open>char colors[] = {'@', ')', '*', '+', '.', '$', '(', '0', '&', '%'}\<close>\<close>

definition colors :: "char list" where
  "colors = [CHR ''@'', CHR '')'', CHR ''*'', CHR ''+'', CHR ''.'',
             CHR ''$'', CHR ''('', CHR ''0'', CHR ''&'', CHR ''%'']"

text \<open>
  The test of line 66, \<^verbatim>\<open>dx*dx + dy*dy <= radius*radius\<close>, with \<^verbatim>\<open>dx = x - center_x\<close> and
  \<^verbatim>\<open>dy = y - center_y\<close>. The arithmetic is on mathematical integers; \<open>no_overflow\<close> below
  shows that for the shapes the program draws every intermediate value fits a 32-bit
  \<^verbatim>\<open>int\<close>.
\<close>

definition in_circle :: "shape \<Rightarrow> nat \<Rightarrow> nat \<Rightarrow> bool" where
  "in_circle sh y x =
     (let dx = int x - center_x sh; dy = int y - center_y sh
      in dx * dx + dy * dy \<le> radius sh * radius sh)"

text \<open>The drawing loop of \<^verbatim>\<open>draw_random_shape\<close>, lines 62 to 70.\<close>

definition apply_shape :: "shape \<Rightarrow> canvas \<Rightarrow> canvas" where
  "apply_shape sh c =
     for_loop 0 ART_HEIGHT
       (\<lambda>y. for_loop 0 ART_WIDTH
          (\<lambda>x c. if in_circle sh y x then set_cell y x (color sh) c else c)) c"

section \<open>Processes and their environment\<close>

text \<open>
  Every process of the program (the supervisor \<^verbatim>\<open>main\<close>, a painter, a painter's child) is
  sequential C code that calls into the operating system and libc. What those calls
  return is not decided by the program, so a process carries its environment with it:
  \<^item> \<open>clock_us\<close>: the wall clock in microseconds; \<^verbatim>\<open>time(NULL)\<close> reads it in seconds,
    \<^verbatim>\<open>sleep\<close> and \<^verbatim>\<open>usleep\<close> advance it by the time slept;
  \<^item> \<open>nsecs\<close>: the \<^verbatim>\<open>tv_nsec\<close> fields the coming calls of \<^verbatim>\<open>clock_gettime\<close> report;
  \<^item> \<open>libc_rand\<close>: libc's generator, \<open>libc_rand s i\<close> being the value of the \<open>i\<close>-th
    \<^verbatim>\<open>rand()\<close> after \<^verbatim>\<open>srand(s)\<close>; \<^verbatim>\<open>rand()\<close> returns a value in \<open>0 .. RAND_MAX\<close>, a \<open>nat\<close>;
  \<^item> \<open>rng\<close>: the values the coming calls of \<^verbatim>\<open>rand()\<close> return;
  \<^item> \<open>forks\<close>: the values the coming calls of \<^verbatim>\<open>fork()\<close> return in this process
    (0 in a child, the child's pid in the parent, negative on failure);
  \<^item> \<open>execv_fails\<close>: whether \<^verbatim>\<open>execv\<close> returns (it returns only on failure);
  \<^item> \<open>shmget_result\<close>: what \<^verbatim>\<open>shmget\<close> returns, and \<open>segment\<close>: the memory \<^verbatim>\<open>shmat\<close>
    maps for a valid identifier, \<open>None\<close> when it returns \<^verbatim>\<open>(void *) -1\<close>;
  \<^item> \<open>waits\<close>: the pid and status the coming calls of \<^verbatim>\<open>wait\<close> report;
  \<^item> \<open>others\<close>: what the other processes attached to the shared segment store into
    it while this process is blocked in its coming \<^verbatim>\<open>sleep\<close>, \<^verbatim>\<open>usleep\<close> and \<^verbatim>\<open>wait\<close> calls;
  \<^item> \<open>trace\<close>: what the process has written and which signals and waits it has issued.
\<close>

datatype event =
    Stdout string               \<comment> \<open>fixed text and canvas renderings\<close>
  | Drew int char int int       \<comment> \<open>\<^verbatim>\<open>"Painter %d drew %c at (%d,%d)\n"\<close>\<close>
  | Killing_subprocess int int  \<comment> \<open>\<^verbatim>\<open>"Painter %d killing its subprocess %d\n"\<close>\<close>
  | Launched int int            \<comment> \<open>\<^verbatim>\<open>"Launched painter %d (PID: %d)\n"\<close>\<close>
  | Killing_painter int int     \<comment> \<open>\<^verbatim>\<open>"Main process killing painter %d (PID: %d)\n"\<close>\<close>
  | Terminated int int          \<comment> \<open>\<^verbatim>\<open>"Painter PID %d terminated with status %d\n"\<close>\<close>
  | Perror string               \<comment> \<open>\<^verbatim>\<open>perror(msg)\<close>\<close>
  | Kill int                    \<comment> \<open>\<^verbatim>\<open>kill(pid, SIGTERM)\<close>\<close>
  | Wait                        \<comment> \<open>\<^verbatim>\<open>wait(NULL)\<close>, \<^verbatim>\<open>wait(&status)\<close>\<close>

text \<open>
  How a process ends: \<^verbatim>\<open>exit(n)\<close> or \<^verbatim>\<open>return n\<close> from \<^verbatim>\<open>main\<close>; a successful \<^verbatim>\<open>execv\<close>,
  after which the process runs \<^verbatim>\<open>/bin/echo\<close> and none of this program; a store through a
  pointer that maps no memory.
\<close>

datatype status = Exited int | Replaced | Crashed

record proc =
  clock_us :: int
  nsecs :: "nat \<Rightarrow> int"
  libc_rand :: "32 word \<Rightarrow> nat \<Rightarrow> nat"
  rng :: "nat \<Rightarrow> nat"
  forks :: "nat \<Rightarrow> int"
  execv_fails :: bool
  shmget_result :: int
  segment :: "canvas option"
  waits :: "nat \<Rightarrow> int \<times> int"
  others :: "nat \<Rightarrow> canvas \<Rightarrow> canvas"
  trace :: "event list"

definition emit :: "event \<Rightarrow> proc \<Rightarrow> proc" where
  "emit e p = p\<lparr>trace := trace p @ [e]\<rparr>"

definition time :: "proc \<Rightarrow> int" where
  "time p = clock_us p div 1000000"

definition clock_gettime :: "proc \<Rightarrow> int \<times> proc" where
  "clock_gettime p = (nsecs p 0, p\<lparr>nsecs := \<lambda>i. nsecs p (Suc i)\<rparr>)"

definition srand :: "32 word \<Rightarrow> proc \<Rightarrow> proc" where
  "srand s p = p\<lparr>rng := libc_rand p s\<rparr>"

definition rand :: "proc \<Rightarrow> nat \<times> proc" where
  "rand p = (rng p 0, p\<lparr>rng := \<lambda>i. rng p (Suc i)\<rparr>)"

definition fork :: "proc \<Rightarrow> int \<times> proc" where
  "fork p = (forks p 0, p\<lparr>forks := \<lambda>i. forks p (Suc i)\<rparr>)"

text \<open>A blocking call returns with the segment as the other processes left it.\<close>

definition blocked :: "proc \<Rightarrow> canvas \<Rightarrow> proc \<times> canvas" where
  "blocked p c = (p\<lparr>others := \<lambda>i. others p (Suc i)\<rparr>, others p 0 c)"

definition sleep :: "int \<Rightarrow> proc \<Rightarrow> canvas \<Rightarrow> proc \<times> canvas" where
  "sleep n p c = blocked (p\<lparr>clock_us := clock_us p + n * 1000000\<rparr>) c"

definition usleep :: "int \<Rightarrow> proc \<Rightarrow> canvas \<Rightarrow> proc \<times> canvas" where
  "usleep n p c = blocked (p\<lparr>clock_us := clock_us p + n\<rparr>) c"

definition wait :: "proc \<Rightarrow> canvas \<Rightarrow> (int \<times> int) \<times> proc \<times> canvas" where
  "wait p c = (waits p 0, blocked (emit Wait (p\<lparr>waits := \<lambda>i. waits p (Suc i)\<rparr>)) c)"

text \<open>
  \<^verbatim>\<open>shmat(shmid, NULL, 0)\<close>: an identifier that \<^verbatim>\<open>shmget\<close> did not hand out (it returns -1
  on failure) names no segment.
\<close>

definition shmat :: "int \<Rightarrow> proc \<Rightarrow> canvas option" where
  "shmat shmid p = (if shmid < 0 then None else segment p)"

section \<open>Drawing a random shape\<close>

text \<open>
  Lines 53 to 55: \<^verbatim>\<open>srand((time(NULL) ^ (worker_id << 16)) + ts.tv_nsec)\<close>. The argument of
  \<^verbatim>\<open>srand\<close> is an \<^verbatim>\<open>unsigned int\<close>: the sum is taken modulo \<open>2 ^ 32\<close>.
\<close>

definition seed_generator :: "int \<Rightarrow> proc \<Rightarrow> proc" where
  "seed_generator worker_id p =
     (let (ns, p1) = clock_gettime p
      in srand (word_of_int ((time p1 XOR push_bit 16 worker_id) + ns)) p1)"

text \<open>
  Lines 57 to 60. \<^verbatim>\<open>rand()\<close> is not negative, so C's \<^verbatim>\<open>%\<close> is \<open>mod\<close> here;
  \<^verbatim>\<open>sizeof(colors)/sizeof(char)\<close> is the number of colors.
\<close>

definition random_shape :: "proc \<Rightarrow> shape \<times> proc" where
  "random_shape p =
     (let (r1, p1) = rand p;
          (r2, p2) = rand p1;
          (r3, p3) = rand p2;
          (r4, p4) = rand p3
      in (\<lparr>center_x = int (r1 mod ART_WIDTH),
           center_y = int (r2 mod ART_HEIGHT),
           radius = 2 + int (r3 mod 4),
           color = colors ! (r4 mod length colors)\<rparr>, p4))"

text \<open>\<^verbatim>\<open>void draw_random_shape(int worker_id)\<close>, lines 50 to 73.\<close>

definition draw_random_shape :: "int \<Rightarrow> proc \<Rightarrow> canvas \<Rightarrow> proc \<times> canvas" where
  "draw_random_shape worker_id p c =
     (let (sh, p1) = random_shape (seed_generator worker_id p)
      in (emit (Drew worker_id (color sh) (center_x sh) (center_y sh)) p1,
          apply_shape sh c))"

text \<open>
  A sequence of shape applications on the canvas, each by some painter (its id and its
  process state).
\<close>

fun draw_all :: "(int \<times> proc) list \<Rightarrow> canvas \<Rightarrow> canvas" where
  "draw_all [] c = c"
| "draw_all ((worker_id, p) # ds) c = draw_all ds (snd (draw_random_shape worker_id p c))"

text \<open>A sequence of \<open>n\<close> prints: the text written, and the canvas afterwards.\<close>

fun snapshots :: "nat \<Rightarrow> string list \<times> canvas \<Rightarrow> string list \<times> canvas" where
  "snapshots 0 s = s"
| "snapshots (Suc n) (out, c) = snapshots n (out @ [print_canvas c], c)"

section \<open>The painter: \<^verbatim>\<open>worker_process\<close>\<close>

text \<open>
  One turn of the \<^verbatim>\<open>while\<close> loop, lines 92 to 101. \<^verbatim>\<open>rand() % 5 == 0 && child_pid > 0\<close>
  calls \<^verbatim>\<open>rand()\<close> whatever \<^verbatim>\<open>child_pid\<close> is.
\<close>

definition worker_turn :: "int \<Rightarrow> int \<Rightarrow> proc \<Rightarrow> canvas \<Rightarrow> int \<times> proc \<times> canvas" where
  "worker_turn worker_id child_pid p c =
     (let (p1, c1) = draw_random_shape worker_id p c;
          (r, p2) = rand p1;
          (child_pid', p3) =
            (if r mod 5 = 0 \<and> child_pid > 0
             then (0, emit (Kill child_pid) (emit (Killing_subprocess worker_id child_pid) p2))
             else (child_pid, p2));
          (r', p4) = rand p3;
          (p5, c5) = sleep (1 + int (r' mod 2)) p4 c1
      in (child_pid', p5, c5))"

text \<open>The loop \<^verbatim>\<open>while (time(NULL) - start < timeout)\<close>, lines 91 to 102.\<close>

function worker_loop ::
  "int \<Rightarrow> int \<Rightarrow> int \<Rightarrow> int \<Rightarrow> proc \<Rightarrow> canvas \<Rightarrow> int \<times> proc \<times> canvas" where
  "worker_loop worker_id start timeout child_pid p c =
     (if time p - start < timeout
      then (case worker_turn worker_id child_pid p c of
              (child_pid', p', c') \<Rightarrow> worker_loop worker_id start timeout child_pid' p' c')
      else (child_pid, p, c))"
  by pat_completeness auto
termination
proof (relation "measure (\<lambda>(worker_id, start, timeout, child_pid, p, c).
                   nat (start + timeout - time p))")
  show "wf (measure (\<lambda>(worker_id, start, timeout, child_pid, p, c).
                   nat (start + timeout - time p)))"
    by simp
next
  fix worker_id start timeout child_pid child_pid' :: int and p p' :: proc
    and c c' :: canvas and y :: "proc \<times> canvas"
  assume running: "time p - start < timeout"
    and "(child_pid', y) = worker_turn worker_id child_pid p c"
    and "(p', c') = y"
  then have turn: "worker_turn worker_id child_pid p c = (child_pid', p', c')"
    by simp
  have "clock_us p + 1000000 \<le> clock_us p'"
    using turn
    by (auto simp: worker_turn_def draw_random_shape_def random_shape_def seed_generator_def
          clock_gettime_def srand_def rand_def emit_def sleep_def blocked_def Let_def
          split: prod.splits if_splits)
  then have "time p + 1 \<le> time p'"
    unfolding time_def by linarith
  with running show "((worker_id, start, timeout, child_pid', p', c'),
           worker_id, start, timeout, child_pid, p, c)
          \<in> measure (\<lambda>(worker_id, start, timeout, child_pid, p, c).
                   nat (start + timeout - time p))"
    by simp
qed

declare worker_loop.simps [simp del]

text \<open>\<^verbatim>\<open>void worker_process(int worker_id, int timeout)\<close>, lines 78 to 112.\<close>

definition worker_process :: "int \<Rightarrow> int \<Rightarrow> proc \<Rightarrow> canvas \<Rightarrow> proc \<times> canvas \<times> status" where
  "worker_process worker_id timeout p c =
     (let start = time p;
          (child_pid, p1) = fork p
      in if child_pid = 0 then
           (if execv_fails p1 then (emit (Perror ''execv failed'') p1, c, Exited 1)
            else (p1, c, Replaced))
         else if child_pid > 0 then
           (case worker_loop worker_id start timeout child_pid p1 c of
              (child_pid', p2, c2) \<Rightarrow>
                if child_pid' > 0 then (case wait p2 c2 of (r, p3, c3) \<Rightarrow> (p3, c3, Exited 0))
                else (p2, c2, Exited 0))
         else (emit (Perror ''fork failed'') p1, c, Exited 0))"

section \<open>The supervisor: \<^verbatim>\<open>main\<close>\<close>

text \<open>
  The launch loop, lines 131 to 143. A process in which \<^verbatim>\<open>fork\<close> returns 0 is the new painter:
  it runs \<^verbatim>\<open>worker_process(i, 8)\<close>, which ends the process, so the loop goes on in the parent
  only. \<open>Inl\<close> is a process that has ended inside the loop, \<open>Inr\<close> the parent after it.
\<close>

function launch_workers ::
  "nat \<Rightarrow> int list \<Rightarrow> proc \<Rightarrow> canvas \<Rightarrow>
     (proc \<times> canvas \<times> status) + (int list \<times> proc \<times> canvas)" where
  "launch_workers i workers p c =
     (if i < MAX_WORKERS then
        (case fork p of (pid, p1) \<Rightarrow>
           if pid = 0 then Inl (worker_process (int i) 8 p1 c)
           else if pid > 0 then
             (case usleep 100000 (emit (Launched (int i) pid) p1) c of
                (p2, c2) \<Rightarrow> launch_workers (Suc i) (workers[i := pid]) p2 c2)
           else Inl (emit (Perror ''fork failed'') p1, c, Exited 1))
      else Inr (workers, p, c))"
  by pat_completeness auto
termination
  by (relation "measure (\<lambda>(i, workers, p, c). MAX_WORKERS - i)") auto

declare launch_workers.simps [simp del]

text \<open>The five display rounds, lines 146 to 157.\<close>

definition update_display :: "int list \<Rightarrow> proc \<Rightarrow> canvas \<Rightarrow> proc \<times> canvas" where
  "update_display workers p c =
     for_loop 0 5
       (\<lambda>i (p, c).
          case sleep 3 p c of (p1, c1) \<Rightarrow>
            let p2 = emit (Stdout (print_canvas c1)) p1
            in if i = 2 then
                 (case rand p2 of (r, p3) \<Rightarrow>
                    let worker_to_kill = r mod MAX_WORKERS;
                        p4 = emit (Killing_painter (int worker_to_kill)
                                     (workers ! worker_to_kill)) p3
                    in (emit (Kill (workers ! worker_to_kill)) p4, c1))
               else (p2, c1))
       (p, c)"

text \<open>The final loop of \<^verbatim>\<open>wait\<close> calls, lines 160 to 164.\<close>

definition await_workers :: "proc \<Rightarrow> canvas \<Rightarrow> proc \<times> canvas" where
  "await_workers p c =
     for_loop 0 MAX_WORKERS
       (\<lambda>i (p, c).
          case wait p c of ((terminated_pid, status), p1, c1) \<Rightarrow>
            (emit (Terminated terminated_pid status) p1, c1))
       (p, c)"

text \<open>
  \<^verbatim>\<open>int main()\<close>, lines 114 to 174. Neither the result of \<^verbatim>\<open>shmget\<close> nor that of \<^verbatim>\<open>shmat\<close> is
  tested: \<^verbatim>\<open>clear_canvas()\<close> stores through \<^verbatim>\<open>shared_memory\<close> whatever \<^verbatim>\<open>shmat\<close> returned. The
  array \<^verbatim>\<open>workers\<close> is not initialised; each entry is written before it is read. \<^verbatim>\<open>shmdt\<close>
  and \<^verbatim>\<open>shmctl\<close> at the end leave nothing to observe.
\<close>

definition main :: "proc \<Rightarrow> proc \<times> status" where
  "main p =
     (let p1 = srand (word_of_int (time p)) p;
          shmid = shmget_result p1
      in case shmat shmid p1 of
           None \<Rightarrow> (p1, Crashed)
         | Some c0 \<Rightarrow>
             let c1 = clear_canvas c0;
                 p2 = emit (Stdout (print_canvas c1)) p1;
                 p3 = emit (Stdout (''====== ASCII Art Generator ======'' @ [CHR 0x0A])) p2
             in case launch_workers 0 (replicate MAX_WORKERS 0) p3 c1 of
                  Inl (p4, c4, st) \<Rightarrow> (p4, st)
                | Inr (workers, p4, c4) \<Rightarrow>
                    (case update_display workers p4 c4 of (p5, c5) \<Rightarrow>
                       case await_workers p5 c5 of (p6, c6) \<Rightarrow>
                         let p7 = emit (Stdout (CHR 0x0A # ''== Final Artwork =='' @ [CHR 0x0A])) p6
                         in (emit (Stdout (print_canvas c6)) p7, Exited 0)))"

section \<open>Painters and printer on the shared segment\<close>

text \<open>
  The canvas lives in a System V shared-memory segment. The painters store into it in
  the loop of \<^verbatim>\<open>draw_random_shape\<close>, the supervisor loads from it in the loop of
  \<^verbatim>\<open>print_canvas\<close>; they are separate processes, and the program calls no lock, semaphore
  or other synchronisation. A run of the system is therefore an interleaving of the
  iterations of these loops. Each iteration loads or stores one \<^verbatim>\<open>char\<close>; it is taken as
  one atomic step, and the steps as sequentially consistent.

  \<open>paint_cell sh k\<close> is the \<open>k\<close>-th iteration of the nested loops of lines 62 to 70, in the
  order the loops run: row \<open>k div ART_WIDTH\<close>, column \<open>k mod ART_WIDTH\<close>.
\<close>

definition paint_cell :: "shape \<Rightarrow> nat \<Rightarrow> canvas \<Rightarrow> canvas" where
  "paint_cell sh k c =
     (let y = k div ART_WIDTH; x = k mod ART_WIDTH
      in if in_circle sh y x then set_cell y x (color sh) c else c)"

text \<open>
  The state of the system while one \<^verbatim>\<open>print_canvas\<close> runs: the segment, for each shape
  being drawn the number of iterations its loop has done, the number of iterations the
  print has done and the cells it has read.
\<close>

record system =
  shm :: canvas
  painters :: "(shape \<times> nat) list"
  printer :: nat
  seen :: "char list"

datatype actor = Painter nat | Printer

text \<open>One iteration of the loop of the scheduled process; a loop that has ended stays so.\<close>

fun micro_step :: "actor \<Rightarrow> system \<Rightarrow> system" where
  "micro_step (Painter i) s =
     (if i < length (painters s) then
        (case painters s ! i of
           (sh, k) \<Rightarrow>
             if k < ART_HEIGHT * ART_WIDTH
             then s\<lparr>shm := paint_cell sh k (shm s), painters := (painters s)[i := (sh, Suc k)]\<rparr>
             else s)
      else s)"
| "micro_step Printer s =
     (if printer s < ART_HEIGHT * ART_WIDTH
      then s\<lparr>seen := seen s @ [cell (shm s) (printer s div ART_WIDTH) (printer s mod ART_WIDTH)],
             printer := Suc (printer s)\<rparr>
      else s)"

fun run :: "actor list \<Rightarrow> system \<Rightarrow> system" where
  "run [] s = s"
| "run (a # sched) s = run sched (micro_step a s)"

text \<open>The cells of a canvas in the order in which \<^verbatim>\<open>print_canvas\<close> reads them.\<close>

definition snapshot_of :: "canvas \<Rightarrow> char list" where
  "snapshot_of c =
     map (\<lambda>k. cell c (k div ART_WIDTH) (k mod ART_WIDTH)) [0..<ART_HEIGHT * ART_WIDTH]"

section \<open>Reading traces\<close>

text \<open>
  The child of a painter as the painter's own calls leave it: \<open>Alive\<close> while it has
  been started and neither signalled nor given up, \<open>Gone\<close> once the painter has sent it
  \<^verbatim>\<open>SIGTERM\<close> or when there never was one, \<open>Violated\<close> as soon as a signal or a \<^verbatim>\<open>wait\<close>
  is issued for a child that is \<open>Gone\<close>. \<open>cancel_step\<close> reads one event of the trace.
\<close>

datatype subtask = Alive | Gone | Violated

fun cancel_step :: "subtask \<Rightarrow> event \<Rightarrow> subtask" where
  "cancel_step Alive (Kill pid) = Gone"
| "cancel_step Gone (Kill pid) = Violated"
| "cancel_step Gone Wait = Violated"
| "cancel_step s e = s"

text \<open>The child behind a value of \<^verbatim>\<open>child_pid\<close>: only a positive one names a process.\<close>

definition subtask_of :: "int \<Rightarrow> subtask" where
  "subtask_of child_pid = (if child_pid > 0 then Alive else Gone)"

text \<open>The events a process adds to its trace between two of its states.\<close>

definition issued :: "proc \<Rightarrow> proc \<Rightarrow> event list" where
  "issued p p' = drop (length (trace p)) (trace p')"

text \<open>The pids a trace sends \<^verbatim>\<open>SIGTERM\<close> to, and the number of shapes it reports drawn.\<close>

fun signals :: "event list \<Rightarrow> int list" where
  "signals [] = []"
| "signals (Kill pid # es) = pid # signals es"
| "signals (e # es) = signals es"

fun shapes_drawn :: "event list \<Rightarrow> nat" where
  "shapes_drawn [] = 0"
| "shapes_drawn (Drew w s x y # es) = Suc (shapes_drawn es)"
| "shapes_drawn (e # es) = shapes_drawn es"

text \<open>Whether a turn of the loop takes the branch of line 95 that signals the child.\<close>

definition kills_child :: "int \<Rightarrow> int \<Rightarrow> proc \<Rightarrow> canvas \<Rightarrow> bool" where
  "kills_child worker_id child_pid p c \<longleftrightarrow>
     fst (rand (fst (draw_random_shape worker_id p c))) mod 5 = 0 \<and> child_pid > 0"

text \<open>
  \<open>handled child_pid child_pid' ev\<close>: the events \<open>ev\<close>, issued while \<^verbatim>\<open>child_pid\<close> went from
  the first value to the second, treat the child correctly and hold no \<^verbatim>\<open>wait\<close>.
\<close>

definition handled :: "int \<Rightarrow> int \<Rightarrow> event list \<Rightarrow> bool" where
  "handled child_pid child_pid' ev \<longleftrightarrow>
     Wait \<notin> set ev \<and>
     (child_pid' = child_pid \<and> signals ev = [] \<or>
      0 < child_pid \<and> child_pid' = 0 \<and> signals ev = [child_pid])"

text \<open>
  \<open>legit c0 S s\<close>: every cell of the segment, and every cell the print has read, holds
  the value it had in \<open>c0\<close> or a symbol of \<open>S\<close>; the painters draw symbols of \<open>S\<close>.
\<close>

definition legit :: "canvas \<Rightarrow> char set \<Rightarrow> system \<Rightarrow> bool" where
  "legit c0 S s \<longleftrightarrow>
     length (seen s) = printer s \<and>
     (\<forall>y x. cell (shm s) y x = cell c0 y x \<or> cell (shm s) y x \<in> S) \<and>
     (\<forall>k<length (seen s).
        seen s ! k = cell c0 (k div ART_WIDTH) (k mod ART_WIDTH) \<or> seen s ! k \<in> S) \<and>
     (\<forall>p\<in>set (painters s). color (fst p) \<in> S)"

section \<open>Example inputs\<close>

text \<open>A disc of radius 2 around column 3 of row 2.\<close>

definition at_sign_disc :: shape where
  "at_sign_disc = \<lparr>center_x = 3, center_y = 2, radius = 2, color = CHR ''@''\<rparr>"

text \<open>A canvas full of \<^verbatim>\<open>#\<close>, as a segment may be before it is cleared.\<close>

definition hash_canvas :: canvas where
  "hash_canvas = replicate ART_HEIGHT (replicate ART_WIDTH (CHR ''#''))"

text \<open>
  A process whose calls all succeed: \<^verbatim>\<open>fork\<close> hands out the pids 100, 101, ..., the
  generator seeded with \<open>s\<close> returns \<open>s + 7 * i\<close> at its \<open>i\<close>-th call, the segment is
  attached, and no other process stores into it.
\<close>

definition calm_proc :: proc where
  "calm_proc =
     \<lparr>clock_us = 0, nsecs = (\<lambda>i. 0), libc_rand = (\<lambda>s i. unat s + 7 * i), rng = (\<lambda>i. i),
      forks = (\<lambda>i. 100 + int i), execv_fails = False, shmget_result = 1,
      segment = Some hash_canvas, waits = (\<lambda>i. (100 + int i, 0)), others = (\<lambda>i c. c),
      trace = []\<rparr>"

text \<open>A process in which every \<^verbatim>\<open>fork\<close> fails.\<close>

definition forkless_proc :: proc where
  "forkless_proc = calm_proc\<lparr>forks := \<lambda>i. - 1\<rparr>"

text \<open>A process that gets no shared memory: \<^verbatim>\<open>shmget\<close> returns -1.\<close>

definition no_shm_proc :: proc where
  "no_shm_proc = calm_proc\<lparr>shmget_result := - 1, segment := None\<rparr>"

text \<open>A supervisor whose first \<^verbatim>\<open>fork\<close> gives painter 0 the pid 100 and whose second fails.\<close>

definition launch_fail_proc :: proc where
  "launch_fail_proc = calm_proc\<lparr>forks := \<lambda>i. if i = 0 then 100 else - 1\<rparr>"

text \<open>
  A print that starts on the blank canvas while one painter is about to draw the disc
  \<open>at_sign_disc\<close>; the print reads four cells, the painter runs its whole loop, the print
  reads the other 746 cells.
\<close>

definition torn_start :: system where
  "torn_start = \<lparr>shm = blank_canvas, painters = [(at_sign_disc, 0)], printer = 0, seen = []\<rparr>"

definition torn_schedule :: "actor list" where
  "torn_schedule =
     replicate 4 Printer @ replicate (ART_HEIGHT * ART_WIDTH) (Painter 0) @ replicate 746 Printer"

section \<open>Loops and cell stores\<close>

lemma for_loop_done: "n \<le> i \<Longrightarrow> for_loop i n body s = s"
  by (simp add: for_loop.simps)

lemma for_loop_step: "i < n \<Longrightarrow> for_loop i n body s = for_loop (Suc i) n body (body i s)"
  by (subst for_loop.simps) simp

lemma for_loop_last:
  "i \<le> n \<Longrightarrow> for_loop i (Suc n) body s = body n (for_loop i n body s)"
proof (induction i n body s rule: for_loop.induct)
  case (1 i n body s)
  show ?case
  proof (cases "i < n")
    case True
    then show ?thesis
      using 1 by (simp add: for_loop_step)
  next
    case False
    with 1 have "i = n" by simp
    then show ?thesis
      by (simp add: for_loop_step for_loop_done)
  qed
qed

text \<open>The invariant rule of a counting loop that starts at 0.\<close>

lemma for_loop_invariant:
  assumes "P 0 s" and "\<And>j t. j < n \<Longrightarrow> P j t \<Longrightarrow> P (Suc j) (body j t)"
  shows "P n (for_loop 0 n body s)"
  using assms(2)
proof (induction n)
  case 0
  show ?case by (simp add: for_loop_done assms(1))
next
  case (Suc n)
  have "P n (for_loop 0 n body s)"
    by (rule Suc.IH) (simp add: Suc.prems)
  then show ?case
    by (simp add: for_loop_last Suc.prems)
qed

lemma length_set_cell [simp]: "length (set_cell y x v c) = length c"
  by (simp add: set_cell_def)

lemma length_row_set_cell [simp]: "length (set_cell y x v c ! y') = length (c ! y')"
  by (cases "y < length c") (simp_all add: set_cell_def nth_list_update list_update_beyond)

lemma cell_set_cell:
  "cell (set_cell y x v c) y' x' =
     (if y' = y \<and> x' = x \<and> y < length c \<and> x < length (c ! y) then v else cell c y' x')"
  by (cases "y < length c"; cases "x < length (c ! y)")
     (auto simp: set_cell_def cell_def nth_list_update list_update_beyond)

text \<open>
  Both nested loops over the canvas (clearing and drawing) store one value \<open>v\<close> in the
  cells a test \<open>P\<close> selects. Their effect, cell by cell, on a list of rows of any size.
\<close>

lemma row_scan:
  assumes body: "\<And>x t. body x t = (if P x then set_cell y x v t else t)"
  shows "length (for_loop 0 m body c) = length c \<and>
         (\<forall>y'. length (for_loop 0 m body c ! y') = length (c ! y')) \<and>
         (\<forall>y' x'. cell (for_loop 0 m body c) y' x' =
            (if y' = y \<and> x' < m \<and> P x' \<and> y < length c \<and> x' < length (c ! y)
             then v else cell c y' x'))"
proof (rule for_loop_invariant
    [where P = "\<lambda>j t. length t = length c \<and> (\<forall>y'. length (t ! y') = length (c ! y')) \<and>
         (\<forall>y' x'. cell t y' x' =
            (if y' = y \<and> x' < j \<and> P x' \<and> y < length c \<and> x' < length (c ! y)
             then v else cell c y' x'))"])
  show "length c = length c \<and> (\<forall>y'. length (c ! y') = length (c ! y')) \<and>
         (\<forall>y' x'. cell c y' x' =
            (if y' = y \<and> x' < 0 \<and> P x' \<and> y < length c \<and> x' < length (c ! y)
             then v else cell c y' x'))"
    by simp
next
  fix j t
  assume "j < m" and inv: "length t = length c \<and> (\<forall>y'. length (t ! y') = length (c ! y')) \<and>
         (\<forall>y' x'. cell t y' x' =
            (if y' = y \<and> x' < j \<and> P x' \<and> y < length c \<and> x' < length (c ! y)
             then v else cell c y' x'))"
  show "length (body j t) = length c \<and> (\<forall>y'. length (body j t ! y') = length (c ! y')) \<and>
         (\<forall>y' x'. cell (body j t) y' x' =
            (if y' = y \<and> x' < Suc j \<and> P x' \<and> y < length c \<and> x' < length (c ! y)
             then v else cell c y' x'))"
    using inv by (auto simp: body cell_set_cell less_Suc_eq)
qed

lemma grid_scan:
  assumes body: "\<And>y x t. body y x t = (if P y x then set_cell y x v t else t)"
  shows "length (for_loop 0 n (\<lambda>y. for_loop 0 m (body y)) c) = length c \<and>
         (\<forall>y'. length (for_loop 0 n (\<lambda>y. for_loop 0 m (body y)) c ! y') = length (c ! y')) \<and>
         (\<forall>y' x'. cell (for_loop 0 n (\<lambda>y. for_loop 0 m (body y)) c) y' x' =
            (if y' < n \<and> x' < m \<and> P y' x' \<and> y' < length c \<and> x' < length (c ! y')
             then v else cell c y' x'))"
proof (rule for_loop_invariant
    [where P = "\<lambda>j t. length t = length c \<and> (\<forall>y'. length (t ! y') = length (c ! y')) \<and>
         (\<forall>y' x'. cell t y' x' =
            (if y' < j \<and> x' < m \<and> P y' x' \<and> y' < length c \<and> x' < length (c ! y')
             then v else cell c y' x'))"])
  show "length c = length c \<and> (\<forall>y'. length (c ! y') = length (c ! y')) \<and>
         (\<forall>y' x'. cell c y' x' =
            (if y' < 0 \<and> x' < m \<and> P y' x' \<and> y' < length c \<and> x' < length (c ! y')
             then v else cell c y' x'))"
    by simp
next
  fix j t
  assume "j < n" and inv: "length t = length c \<and> (\<forall>y'. length (t ! y') = length (c ! y')) \<and>
         (\<forall>y' x'. cell t y' x' =
            (if y' < j \<and> x' < m \<and> P y' x' \<and> y' < length c \<and> x' < length (c ! y')
             then v else cell c y' x'))"
  note row = row_scan [of "body j" "P j" j v m t, OF body]
  show "length (for_loop 0 m (body j) t) = length c \<and>
         (\<forall>y'. length (for_loop 0 m (body j) t ! y') = length (c ! y')) \<and>
         (\<forall>y' x'. cell (for_loop 0 m (body j) t) y' x' =
            (if y' < Suc j \<and> x' < m \<and> P y' x' \<and> y' < length c \<and> x' < length (c ! y')
             then v else cell c y' x'))"
    using inv row by (auto simp: less_Suc_eq)
qed

section \<open>Clearing, drawing and printing\<close>

lemma wf_canvas_iff:
  "wf_canvas c \<longleftrightarrow> length c = ART_HEIGHT \<and> (\<forall>y<ART_HEIGHT. length (c ! y) = ART_WIDTH)"
  by (auto simp: wf_canvas_def list_all_length)

lemma canvas_eqI:
  assumes "length c = length d"
    and "\<And>y. y < length c \<Longrightarrow> length (c ! y) = length (d ! y)"
    and "\<And>y x. y < length c \<Longrightarrow> x < length (c ! y) \<Longrightarrow> cell c y x = cell d y x"
  shows "c = d"
  using assms by (auto simp: cell_def intro!: nth_equalityI)

lemmas apply_shape_scan =
  grid_scan [of "\<lambda>y x t. if in_circle sh y x then set_cell y x (color sh) t else t"
                "in_circle sh" "color sh" ART_HEIGHT ART_WIDTH c, folded apply_shape_def, OF refl] for sh c

lemma length_apply_shape [simp]: "length (apply_shape sh c) = length c"
  using apply_shape_scan [of sh c] by simp

lemma length_row_apply_shape [simp]: "length (apply_shape sh c ! y) = length (c ! y)"
  using apply_shape_scan [of sh c] by simp

lemma cell_apply_shape:
  "cell (apply_shape sh c) y x =
     (if y < ART_HEIGHT \<and> x < ART_WIDTH \<and> in_circle sh y x \<and> y < length c \<and> x < length (c ! y)
      then color sh else cell c y x)"
  using apply_shape_scan [of sh c] by simp

lemma wf_apply_shape [simp]: "wf_canvas (apply_shape sh c) = wf_canvas c"
  by (simp add: wf_canvas_iff)

lemma in_circle_distance:
  assumes "0 \<le> radius sh"
  shows "in_circle sh y x \<longleftrightarrow>
         sqrt (real_of_int ((int x - center_x sh)\<^sup>2 + (int y - center_y sh)\<^sup>2))
           \<le> real_of_int (radius sh)"
proof -
  let ?d = "(int x - center_x sh)\<^sup>2 + (int y - center_y sh)\<^sup>2"
  have "sqrt (real_of_int ?d) \<le> real_of_int (radius sh)
        \<longleftrightarrow> real_of_int ?d \<le> (real_of_int (radius sh))\<^sup>2"
    using assms by (auto intro: real_le_lsqrt dest: sqrt_le_D)
  also have "\<dots> \<longleftrightarrow> ?d \<le> (radius sh)\<^sup>2"
    by (metis of_int_le_iff of_int_power)
  finally show ?thesis
    by (simp add: in_circle_def Let_def power2_eq_square)
qed


text \<open>
  The shapes \<^verbatim>\<open>draw_random_shape\<close> draws keep every value of the C arithmetic of lines 64
  to 66 (the differences, the three products, the sum of at most 2597) far inside the
  range of a 32-bit \<^verbatim>\<open>int\<close>, so the mathematical integers of \<open>in_circle\<close> compute what the
  C expression computes.
\<close>

lemma no_overflow:
  assumes "0 \<le> center_x sh" "center_x sh < int ART_WIDTH"
    and "0 \<le> center_y sh" "center_y sh < int ART_HEIGHT"
    and "2 \<le> radius sh" "radius sh \<le> 5" and "y < ART_HEIGHT" "x < ART_WIDTH"
  shows "\<bar>int x - center_x sh\<bar> \<le> 49 \<and> \<bar>int y - center_y sh\<bar> \<le> 14 \<and>
         0 \<le> (int x - center_x sh) * (int x - center_x sh) \<and>
         (int x - center_x sh) * (int x - center_x sh) \<le> 2401 \<and>
         0 \<le> (int y - center_y sh) * (int y - center_y sh) \<and>
         (int y - center_y sh) * (int y - center_y sh) \<le> 196 \<and>
         0 \<le> radius sh * radius sh \<and> radius sh * radius sh \<le> 25"
proof -
  have sq: "d * d \<le> b * b" if "\<bar>d\<bar> \<le> b" for d b :: int
    using that mult_mono [of "\<bar>d\<bar>" b "\<bar>d\<bar>" b] by simp
  have "\<bar>int x - center_x sh\<bar> \<le> 49" and "\<bar>int y - center_y sh\<bar> \<le> 14"
    and "\<bar>radius sh\<bar> \<le> 5"
    using assms by (simp_all add: ART_WIDTH_def ART_HEIGHT_def)
  then show ?thesis
    using sq [of "int x - center_x sh" 49] sq [of "int y - center_y sh" 14] sq [of "radius sh" 5]
    by simp
qed

text \<open>
  Claim C1. Applying a shape sets exactly the in-bounds cells whose Euclidean distance from
  the center is at most the radius to the shape's symbol, and leaves every other cell of the
  canvas as it was; the canvas keeps its size, so it has no cells but the in-bounds ones.
  The radius is not negative: \<^verbatim>\<open>draw_random_shape\<close> draws it from 2 to 5.
\<close>

theorem apply_shape_disc:
  assumes "wf_canvas c" and "0 \<le> radius sh"
  shows "wf_canvas (apply_shape sh c) \<and>
         (\<forall>y<ART_HEIGHT. \<forall>x<ART_WIDTH.
            cell (apply_shape sh c) y x =
              (if sqrt (real_of_int ((int x - center_x sh)\<^sup>2 + (int y - center_y sh)\<^sup>2))
                    \<le> real_of_int (radius sh)
               then color sh else cell c y x))"
  using assms by (simp add: cell_apply_shape in_circle_distance wf_canvas_iff)

lemma wf_blank_canvas [simp]: "wf_canvas blank_canvas"
  by (simp add: wf_canvas_def blank_canvas_def list_all_length)

lemma cell_blank_canvas:
  "y < ART_HEIGHT \<Longrightarrow> x < ART_WIDTH \<Longrightarrow> cell blank_canvas y x = blank"
  by (simp add: cell_def blank_canvas_def)

theorem apply_shape_disc_witness:
  "wf_canvas blank_canvas \<and> 0 \<le> radius at_sign_disc \<and>
   wf_canvas (apply_shape at_sign_disc blank_canvas) \<and>
   cell (apply_shape at_sign_disc blank_canvas) 2 5 = CHR ''@'' \<and>
   cell (apply_shape at_sign_disc blank_canvas) 2 6 = blank"
proof -
  have r: "0 \<le> radius at_sign_disc"
    by (simp add: at_sign_disc_def)
  have inside: "in_circle at_sign_disc 2 5" and outside: "\<not> in_circle at_sign_disc 2 6"
    by (simp_all add: in_circle_def at_sign_disc_def)
  have "2 < ART_HEIGHT" "5 < ART_WIDTH" "6 < ART_WIDTH"
    by (simp_all add: ART_HEIGHT_def ART_WIDTH_def)
  then show ?thesis
    using apply_shape_disc [OF wf_blank_canvas r] inside outside
    by (simp add: in_circle_distance [OF r, symmetric] cell_blank_canvas at_sign_disc_def)
qed

text \<open>
  Claim C10. Shape application is idempotent: applying the same shape twice in succession
  yields the same canvas as applying it once, for every shape and every canvas.
\<close>

theorem apply_shape_idem: "apply_shape sh (apply_shape sh c) = apply_shape sh c"
  by (rule canvas_eqI) (simp_all add: cell_apply_shape)

lemmas clear_canvas_scan =
  grid_scan [of "\<lambda>y x. set_cell y x blank" "\<lambda>y x. True" blank ART_HEIGHT ART_WIDTH c,
             folded clear_canvas_def, simplified] for c

lemma clear_canvas_wf: "wf_canvas c \<Longrightarrow> clear_canvas c = blank_canvas"
proof (rule canvas_eqI)
  assume wf: "wf_canvas c"
  show "length (clear_canvas c) = length blank_canvas"
    using wf clear_canvas_scan [of c] by (simp add: wf_canvas_iff blank_canvas_def)
  show "length (clear_canvas c ! y) = length (blank_canvas ! y)" if "y < length (clear_canvas c)" for y
    using that wf clear_canvas_scan [of c] by (simp add: wf_canvas_iff blank_canvas_def)
  show "cell (clear_canvas c) y x = cell blank_canvas y x"
    if "y < length (clear_canvas c)" "x < length (clear_canvas c ! y)" for y x
    using that wf clear_canvas_scan [of c] by (simp add: wf_canvas_iff cell_blank_canvas)
qed

lemma for_loop_append:
  "for_loop 0 n (\<lambda>i out. out @ f i) init = init @ concat (map f [0..<n])"
  by (induction n) (simp_all add: for_loop_done for_loop_last)

lemma print_canvas_rows:
  "print_canvas c =
     CHR 0x0A # ''====== ASCII ART ======'' @ [CHR 0x0A]
     @ concat (map (\<lambda>y. map (cell c y) [0..<ART_WIDTH] @ [CHR 0x0A]) [0..<ART_HEIGHT])
     @ ''======================'' @ [CHR 0x0A, CHR 0x0A]"
proof -
  have inner: "for_loop 0 ART_WIDTH (\<lambda>x out. out @ [cell c y x]) out
               = out @ map (cell c y) [0..<ART_WIDTH]" for y out
    using for_loop_append [of ART_WIDTH "\<lambda>x. [cell c y x]" out]
    by (simp add: concat_map_singleton)
  show ?thesis
    unfolding print_canvas_def inner
    using for_loop_append [of ART_HEIGHT "\<lambda>y. map (cell c y) [0..<ART_WIDTH] @ [CHR 0x0A]"]
    by simp
qed

lemma print_blank_canvas:
  "print_canvas blank_canvas =
     CHR 0x0A # ''====== ASCII ART ======'' @ [CHR 0x0A]
     @ concat (replicate ART_HEIGHT (replicate ART_WIDTH blank @ [CHR 0x0A]))
     @ ''======================'' @ [CHR 0x0A, CHR 0x0A]"
proof -
  have "map (cell blank_canvas y) [0..<ART_WIDTH] = replicate ART_WIDTH blank"
    if "y < ART_HEIGHT" for y
    using that by (auto simp: cell_blank_canvas intro!: nth_equalityI)
  then have "map (\<lambda>y. map (cell blank_canvas y) [0..<ART_WIDTH] @ [CHR 0x0A]) [0..<ART_HEIGHT]
             = replicate ART_HEIGHT (replicate ART_WIDTH blank @ [CHR 0x0A])"
    by (auto intro!: nth_equalityI)
  then show ?thesis
    by (simp add: print_canvas_rows)
qed

lemma snapshots_out:
  "snapshots n (out, c) = (out @ replicate n (print_canvas c), c)"
  by (induction n arbitrary: out) (simp_all add: replicate_append_same)

text \<open>
  Claim C7. \<^verbatim>\<open>clear_canvas\<close> sets every cell of the \<open>ART_HEIGHT \<times> ART_WIDTH\<close> grid to blank,
  and any number of prints after it, with no drawing in between, each show the all-blank
  grid (15 lines of 50 spaces between the banners) and leave the canvas all blank.
\<close>

theorem clear_canvas_blank:
  assumes "wf_canvas c"
  shows "(\<forall>y<ART_HEIGHT. \<forall>x<ART_WIDTH. cell (clear_canvas c) y x = blank) \<and>
         wf_canvas (clear_canvas c) \<and>
         snapshots n (out, clear_canvas c) =
           (out @ replicate n
              (CHR 0x0A # ''====== ASCII ART ======'' @ [CHR 0x0A]
               @ concat (replicate ART_HEIGHT (replicate ART_WIDTH blank @ [CHR 0x0A]))
               @ ''======================'' @ [CHR 0x0A, CHR 0x0A]),
            clear_canvas c)"
  using assms
  by (simp add: clear_canvas_wf cell_blank_canvas snapshots_out print_blank_canvas)

lemma wf_hash_canvas [simp]: "wf_canvas hash_canvas"
  by (simp add: wf_canvas_def hash_canvas_def list_all_length)

theorem clear_canvas_blank_witness:
  "wf_canvas hash_canvas \<and>
   cell (clear_canvas hash_canvas) 7 20 = blank \<and>
   snapshots 2 ([], clear_canvas hash_canvas) =
     ([CHR 0x0A # ''====== ASCII ART ======'' @ [CHR 0x0A]
         @ concat (replicate ART_HEIGHT (replicate ART_WIDTH blank @ [CHR 0x0A]))
         @ ''======================'' @ [CHR 0x0A, CHR 0x0A],
       CHR 0x0A # ''====== ASCII ART ======'' @ [CHR 0x0A]
         @ concat (replicate ART_HEIGHT (replicate ART_WIDTH blank @ [CHR 0x0A]))
         @ ''======================'' @ [CHR 0x0A, CHR 0x0A]],
      clear_canvas hash_canvas)"
proof -
  have "(7::nat) < ART_HEIGHT" "(20::nat) < ART_WIDTH"
    by (simp_all add: ART_HEIGHT_def ART_WIDTH_def)
  then show ?thesis
    using clear_canvas_blank [OF wf_hash_canvas, of 2 "[]"]
    by (simp add: numeral_2_eq_2)
qed

section \<open>Random shapes\<close>

lemma rand_fst: "fst (rand p) = rng p 0"
  by (simp add: rand_def)

lemma random_shape_fields:
  "center_x (fst (random_shape p)) = int (rng p 0 mod ART_WIDTH)"
  "center_y (fst (random_shape p)) = int (rng p 1 mod ART_HEIGHT)"
  "radius (fst (random_shape p)) = 2 + int (rng p 2 mod 4)"
  "color (fst (random_shape p)) = colors ! (rng p 3 mod length colors)"
  by (simp_all add: random_shape_def rand_def numeral_2_eq_2 numeral_3_eq_3)

lemma draw_random_shape_canvas:
  "snd (draw_random_shape worker_id p c)
     = apply_shape (fst (random_shape (seed_generator worker_id p))) c"
  by (simp add: draw_random_shape_def split: prod.splits)

lemma color_random_shape: "color (fst (random_shape p)) \<in> set colors"
proof -
  have "rng p 3 mod length colors < length colors"
    by (simp add: colors_def)
  then show ?thesis
    unfolding random_shape_fields by (rule nth_mem)
qed

lemma radius_random_shape:
  "2 \<le> radius (fst (random_shape p))" "radius (fst (random_shape p)) \<le> 5"
proof -
  have "rng p 2 mod 4 < 4"
    by simp
  then show "2 \<le> radius (fst (random_shape p))" "radius (fst (random_shape p)) \<le> 5"
    unfolding random_shape_fields by linarith+
qed

lemma center_random_shape:
  "0 \<le> center_x (fst (random_shape p))" "center_x (fst (random_shape p)) < int ART_WIDTH"
  "0 \<le> center_y (fst (random_shape p))" "center_y (fst (random_shape p)) < int ART_HEIGHT"
  by (simp_all add: random_shape_fields ART_WIDTH_def ART_HEIGHT_def)

text \<open>
  Claim C8. For every worker id and every state of the random source, the shape that
  \<^verbatim>\<open>draw_random_shape\<close> draws has its center inside the grid (\<open>0 \<le> x < ART_WIDTH\<close>,
  \<open>0 \<le> y < ART_HEIGHT\<close>), a radius from 2 to 5 inclusive and a symbol from the ten-symbol
  alphabet \<open>colors\<close>; it is this shape that is applied to the canvas.
\<close>

theorem random_shape_valid:
  "0 \<le> center_x (fst (random_shape (seed_generator worker_id p))) \<and>
   center_x (fst (random_shape (seed_generator worker_id p))) < int ART_WIDTH \<and>
   0 \<le> center_y (fst (random_shape (seed_generator worker_id p))) \<and>
   center_y (fst (random_shape (seed_generator worker_id p))) < int ART_HEIGHT \<and>
   2 \<le> radius (fst (random_shape (seed_generator worker_id p))) \<and>
   radius (fst (random_shape (seed_generator worker_id p))) \<le> 5 \<and>
   color (fst (random_shape (seed_generator worker_id p))) \<in> set colors \<and>
   snd (draw_random_shape worker_id p c)
     = apply_shape (fst (random_shape (seed_generator worker_id p))) c"
  using center_random_shape radius_random_shape color_random_shape draw_random_shape_canvas
  by blast

lemma alphabet_apply_shape:
  assumes "color sh \<in> set colors"
    and "\<forall>y<ART_HEIGHT. \<forall>x<ART_WIDTH. cell c y x = blank \<or> cell c y x \<in> set colors"
  shows "\<forall>y<ART_HEIGHT. \<forall>x<ART_WIDTH.
           cell (apply_shape sh c) y x = blank \<or> cell (apply_shape sh c) y x \<in> set colors"
  using assms by (simp add: cell_apply_shape)

lemma alphabet_draw_all:
  assumes "\<forall>y<ART_HEIGHT. \<forall>x<ART_WIDTH. cell c y x = blank \<or> cell c y x \<in> set colors"
  shows "\<forall>y<ART_HEIGHT. \<forall>x<ART_WIDTH.
           cell (draw_all ds c) y x = blank \<or> cell (draw_all ds c) y x \<in> set colors"
  using assms
proof (induction ds arbitrary: c)
  case Nil
  then show ?case by simp
next
  case (Cons d ds)
  obtain worker_id p where d: "d = (worker_id, p)"
    by (cases d)
  have "color (fst (random_shape (seed_generator worker_id p))) \<in> set colors"
    by (rule color_random_shape)
  then have "\<forall>y<ART_HEIGHT. \<forall>x<ART_WIDTH.
      cell (apply_shape (fst (random_shape (seed_generator worker_id p))) c) y x = blank \<or>
      cell (apply_shape (fst (random_shape (seed_generator worker_id p))) c) y x \<in> set colors"
    using Cons.prems by (rule alphabet_apply_shape)
  then show ?case
    unfolding d draw_all.simps draw_random_shape_canvas by (rule Cons.IH)
qed

lemma wf_draw_all: "wf_canvas (draw_all ds c) \<longleftrightarrow> wf_canvas c"
proof (induction ds arbitrary: c)
  case Nil
  show ?case by simp
next
  case (Cons d ds)
  obtain worker_id p where d: "d = (worker_id, p)"
    by (cases d)
  have "wf_canvas (draw_all (d # ds) c)
        \<longleftrightarrow> wf_canvas (snd (draw_random_shape worker_id p c))"
    unfolding d draw_all.simps by (rule Cons.IH)
  also have "\<dots> \<longleftrightarrow> wf_canvas c"
    by (simp only: draw_random_shape_canvas wf_apply_shape)
  finally show ?case .
qed

text \<open>
  Claim C6. After \<^verbatim>\<open>clear_canvas\<close> and any sequence of shape applications, every cell of the
  canvas is blank or one of the ten symbols of \<open>colors\<close>.
\<close>

theorem alphabet_only:
  assumes "wf_canvas c"
  shows "wf_canvas (draw_all ds (clear_canvas c)) \<and>
         (\<forall>y<ART_HEIGHT. \<forall>x<ART_WIDTH.
            cell (draw_all ds (clear_canvas c)) y x = blank \<or>
            cell (draw_all ds (clear_canvas c)) y x \<in> set colors)"
proof -
  have clear: "clear_canvas c = blank_canvas"
    using assms by (rule clear_canvas_wf)
  have "\<forall>y<ART_HEIGHT. \<forall>x<ART_WIDTH.
          cell blank_canvas y x = blank \<or> cell blank_canvas y x \<in> set colors"
    by (simp add: cell_blank_canvas)
  then show ?thesis
    unfolding clear by (simp add: alphabet_draw_all wf_draw_all)
qed

theorem alphabet_only_witness:
  "wf_canvas hash_canvas \<and>
   (cell (draw_all [(0, calm_proc), (1, calm_proc)] (clear_canvas hash_canvas)) 7 0 = blank \<or>
    cell (draw_all [(0, calm_proc), (1, calm_proc)] (clear_canvas hash_canvas)) 7 0 \<in> set colors)"
proof -
  have "(7::nat) < ART_HEIGHT" "(0::nat) < ART_WIDTH"
    by (simp_all add: ART_HEIGHT_def ART_WIDTH_def)
  with alphabet_only [OF wf_hash_canvas, of "[(0, calm_proc), (1, calm_proc)]"]
  show ?thesis
    using wf_hash_canvas by blast
qed

section \<open>The painter's trace\<close>

lemma trace_emit [simp]: "trace (emit e p) = trace p @ [e]"
  by (simp add: emit_def)

lemma trace_rand [simp]: "trace (snd (rand p)) = trace p"
  by (simp add: rand_def)

lemma trace_fork [simp]: "trace (snd (fork p)) = trace p"
  by (simp add: fork_def)

lemma trace_blocked [simp]: "trace (fst (blocked p c)) = trace p"
  by (simp add: blocked_def)

lemma trace_sleep [simp]: "trace (fst (sleep n p c)) = trace p"
  by (simp add: sleep_def)

lemma trace_usleep [simp]: "trace (fst (usleep n p c)) = trace p"
  by (simp add: usleep_def)

lemma trace_wait [simp]: "trace (fst (snd (wait p c))) = trace p @ [Wait]"
  by (simp add: wait_def)

lemma trace_seed_generator [simp]: "trace (seed_generator worker_id p) = trace p"
  by (simp add: seed_generator_def clock_gettime_def srand_def)

lemma trace_random_shape [simp]: "trace (snd (random_shape p)) = trace p"
  by (simp add: random_shape_def split_beta)

lemma trace_draw_random_shape:
  "trace (fst (draw_random_shape worker_id p c)) =
     trace p @ [Drew worker_id (color (fst (random_shape (seed_generator worker_id p))))
                  (center_x (fst (random_shape (seed_generator worker_id p))))
                  (center_y (fst (random_shape (seed_generator worker_id p))))]"
  by (simp add: draw_random_shape_def split_beta)

lemma issued_append [simp]: "trace p' = trace p @ ev \<Longrightarrow> issued p p' = ev"
  by (simp add: issued_def)

lemma worker_turn_child:
  "fst (worker_turn worker_id child_pid p c) =
     (if kills_child worker_id child_pid p c then 0 else child_pid)"
  by (simp add: worker_turn_def kills_child_def Let_def split_beta)

lemma worker_turn_trace:
  "trace (fst (snd (worker_turn worker_id child_pid p c))) =
     trace (fst (draw_random_shape worker_id p c)) @
     (if kills_child worker_id child_pid p c
      then [Killing_subprocess worker_id child_pid, Kill child_pid] else [])"
  by (simp add: worker_turn_def kills_child_def Let_def split_beta)

lemma signals_append [simp]: "signals (xs @ ys) = signals xs @ signals ys"
  by (induction xs rule: signals.induct) simp_all

lemma handled_Nil [simp]: "handled child_pid child_pid []"
  by (simp add: handled_def)

lemma handled_append:
  assumes "handled a b xs" and "handled b c ys"
  shows "handled a c (xs @ ys)"
proof -
  have "Wait \<notin> set (xs @ ys)"
    using assms by (simp add: handled_def)
  moreover from assms(1) consider "b = a" "signals xs = []" | "0 < a" "b = 0" "signals xs = [a]"
    unfolding handled_def by blast
  then have "c = a \<and> signals (xs @ ys) = [] \<or> 0 < a \<and> c = 0 \<and> signals (xs @ ys) = [a]"
  proof cases
    case 1
    with assms(2) show ?thesis
      unfolding handled_def by simp
  next
    case 2
    with assms(2) have "c = 0" "signals ys = []"
      unfolding handled_def by simp_all
    with 2 show ?thesis
      by simp
  qed
  ultimately show ?thesis
    unfolding handled_def by blast
qed

lemma monitor_quiet:
  "signals ev = [] \<Longrightarrow> Wait \<notin> set ev \<Longrightarrow> foldl cancel_step s ev = s"
proof (induction ev arbitrary: s)
  case Nil
  show ?case by simp
next
  case (Cons e ev)
  then have "cancel_step s e = s"
    by (cases e; cases s) simp_all
  moreover have "signals ev = []"
    using Cons.prems(1) by (cases e) simp_all
  ultimately show ?case
    using Cons by simp
qed

lemma monitor_one:
  "signals ev = [pid] \<Longrightarrow> Wait \<notin> set ev \<Longrightarrow> foldl cancel_step Alive ev = Gone"
proof (induction ev)
  case Nil
  then show ?case by simp
next
  case (Cons e ev)
  show ?case
  proof (cases "\<exists>q. e = Kill q")
    case True
    then obtain q where e: "e = Kill q" ..
    with Cons.prems have "signals ev = []" "Wait \<notin> set ev"
      by simp_all
    then show ?thesis
      by (simp add: e monitor_quiet)
  next
    case False
    with Cons.prems have "cancel_step Alive e = Alive" "signals ev = [pid]" "Wait \<notin> set ev"
      by (cases e; simp)+
    with Cons.IH show ?thesis
      by simp
  qed
qed

lemma handled_monitor:
  assumes "handled child_pid child_pid' ev"
  shows "foldl cancel_step (subtask_of child_pid) ev = subtask_of child_pid'"
    and "length (signals ev) \<le> 1"
proof -
  from assms consider "child_pid' = child_pid" "signals ev = []" "Wait \<notin> set ev"
    | "0 < child_pid" "child_pid' = 0" "signals ev = [child_pid]" "Wait \<notin> set ev"
    unfolding handled_def by blast
  then show "foldl cancel_step (subtask_of child_pid) ev = subtask_of child_pid'"
    by cases (simp_all add: monitor_quiet monitor_one subtask_of_def)
  show "length (signals ev) \<le> 1"
    using assms unfolding handled_def by auto
qed

lemma worker_turn_handled:
  assumes "worker_turn worker_id child_pid p c = (child_pid', p', c')"
  shows "\<exists>ev. trace p' = trace p @ ev \<and> handled child_pid child_pid' ev"
proof -
  let ?kill = "kills_child worker_id child_pid p c"
  let ?ev = "[Drew worker_id (color (fst (random_shape (seed_generator worker_id p))))
                  (center_x (fst (random_shape (seed_generator worker_id p))))
                  (center_y (fst (random_shape (seed_generator worker_id p))))]
             @ (if ?kill then [Killing_subprocess worker_id child_pid, Kill child_pid] else [])"
  have child: "child_pid' = (if ?kill then 0 else child_pid)"
    using worker_turn_child [of worker_id child_pid p c] assms by simp
  have "trace p' = trace p @ ?ev"
    using worker_turn_trace [of worker_id child_pid p c] assms
    by (simp add: trace_draw_random_shape)
  moreover have "handled child_pid child_pid' ?ev"
    unfolding child by (simp add: handled_def kills_child_def)
  ultimately show ?thesis
    by blast
qed

lemma worker_loop_handled:
  "worker_loop worker_id start timeout child_pid p c = (child_pid', p', c')
   \<Longrightarrow> \<exists>ev. trace p' = trace p @ ev \<and> handled child_pid child_pid' ev"
proof (induction worker_id start timeout child_pid p c rule: worker_loop.induct)
  case (1 worker_id start timeout child_pid p c)
  show ?case
  proof (cases "time p - start < timeout")
    case False
    with "1.prems" have "child_pid' = child_pid" "p' = p"
      by (simp_all add: worker_loop.simps)
    then show ?thesis
      by simp
  next
    case True
    obtain child1 p1 c1 where turn: "worker_turn worker_id child_pid p c = (child1, p1, c1)"
      by (cases "worker_turn worker_id child_pid p c") auto
    from worker_turn_handled [OF turn] obtain ev1
      where ev1: "trace p1 = trace p @ ev1" "handled child_pid child1 ev1"
      by blast
    have "worker_loop worker_id start timeout child1 p1 c1 = (child_pid', p', c')"
      using "1.prems" True turn by (subst (asm) worker_loop.simps) simp
    from "1.IH" [OF True turn [symmetric] refl this] obtain ev2
      where ev2: "trace p' = trace p1 @ ev2" "handled child1 child_pid' ev2"
      by blast
    have "trace p' = trace p @ (ev1 @ ev2)"
      using ev1 ev2 by simp
    moreover have "handled child_pid child_pid' (ev1 @ ev2)"
      using ev1 ev2 by (blast intro: handled_append)
    ultimately show ?thesis
      by blast
  qed
qed

text \<open>What \<^verbatim>\<open>worker_process\<close> adds to the trace, in its three branches.\<close>

lemma worker_process_handled:
  "\<exists>ev. trace (fst (worker_process worker_id timeout p c)) = trace p @ ev \<and>
        foldl cancel_step (subtask_of (forks p 0)) ev \<noteq> Violated \<and> length (signals ev) \<le> 1"
proof -
  let ?p1 = "p\<lparr>forks := \<lambda>i. forks p (Suc i)\<rparr>"
  have fork: "fork p = (forks p 0, ?p1)"
    by (simp add: fork_def)
  have p1: "trace ?p1 = trace p"
    by simp
  consider (child) "forks p 0 = 0" | (parent) "0 < forks p 0" | (failed) "forks p 0 < 0"
    by linarith
  then show ?thesis
  proof cases
    case child
    then show ?thesis
      by (simp add: worker_process_def fork Let_def subtask_of_def)
  next
    case failed
    then show ?thesis
      by (simp add: worker_process_def fork Let_def subtask_of_def)
  next
    case parent
    obtain child' p2 c2
      where loop: "worker_loop worker_id (time p) timeout (forks p 0) ?p1 c = (child', p2, c2)"
      by (cases "worker_loop worker_id (time p) timeout (forks p 0) ?p1 c") auto
    from worker_loop_handled [OF loop] obtain ev
      where ev: "trace p2 = trace p @ ev" "handled (forks p 0) child' ev"
      unfolding p1 by auto
    show ?thesis
    proof (cases "0 < child'")
      case True
      then have "trace (fst (worker_process worker_id timeout p c)) = trace p @ (ev @ [Wait])"
        using parent ev by (simp add: worker_process_def fork loop Let_def split_beta)
      moreover have "foldl cancel_step (subtask_of (forks p 0)) (ev @ [Wait]) \<noteq> Violated"
        using True handled_monitor(1) [OF ev(2)] by (simp add: subtask_of_def)
      moreover have "length (signals (ev @ [Wait])) \<le> 1"
        using handled_monitor(2) [OF ev(2)] by simp
      ultimately show ?thesis
        by blast
    next
      case False
      then have "trace (fst (worker_process worker_id timeout p c)) = trace p @ ev"
        using parent ev by (simp add: worker_process_def fork loop Let_def)
      moreover have "foldl cancel_step (subtask_of (forks p 0)) ev \<noteq> Violated"
        using handled_monitor(1) [OF ev(2)] by (simp add: subtask_of_def)
      ultimately show ?thesis
        using handled_monitor(2) [OF ev(2)] by blast
    qed
  qed
qed

text \<open>
  Claim C9. A painter never cancels its child twice: in every run of \<^verbatim>\<open>worker_process\<close>,
  once the child has been sent \<^verbatim>\<open>SIGTERM\<close>, or when \<^verbatim>\<open>fork\<close> gave no child, no further signal is
  sent and no \<^verbatim>\<open>wait\<close> is attempted; at most one signal is sent in the whole run.
\<close>

theorem subtask_cancelled_once:
  "foldl cancel_step (subtask_of (forks p 0))
     (issued p (fst (worker_process worker_id timeout p c))) \<noteq> Violated \<and>
   length (signals (issued p (fst (worker_process worker_id timeout p c)))) \<le> 1"
proof -
  from worker_process_handled [of worker_id timeout p c] obtain ev
    where "trace (fst (worker_process worker_id timeout p c)) = trace p @ ev"
      and "foldl cancel_step (subtask_of (forks p 0)) ev \<noteq> Violated"
      and "length (signals ev) \<le> 1"
    by blast
  then show ?thesis
    by simp
qed

lemma worker_loop_budget:
  "worker_loop worker_id start timeout child_pid p c = (child_pid', p', c')
   \<Longrightarrow> timeout \<le> time p' - start"
proof (induction worker_id start timeout child_pid p c rule: worker_loop.induct)
  case (1 worker_id start timeout child_pid p c)
  show ?case
  proof (cases "time p - start < timeout")
    case False
    with "1.prems" show ?thesis
      by (simp add: worker_loop.simps)
  next
    case True
    obtain child1 p1 c1 where turn: "worker_turn worker_id child_pid p c = (child1, p1, c1)"
      by (cases "worker_turn worker_id child_pid p c") auto
    have "worker_loop worker_id start timeout child1 p1 c1 = (child_pid', p', c')"
      using "1.prems" True turn by (subst (asm) worker_loop.simps) simp
    then show ?thesis
      by (rule "1.IH" [OF True turn [symmetric] refl])
  qed
qed

lemma time_wait [simp]: "time (fst (snd (wait p c))) = time p"
  by (simp add: wait_def blocked_def emit_def time_def)

text \<open>A painter whose \<^verbatim>\<open>fork\<close> succeeded does run for its whole budget.\<close>

lemma worker_budget:
  assumes "0 < forks p 0"
  shows "timeout \<le> time (fst (worker_process worker_id timeout p c)) - time p"
proof -
  let ?p1 = "p\<lparr>forks := \<lambda>i. forks p (Suc i)\<rparr>"
  obtain child' p2 c2
    where loop: "worker_loop worker_id (time p) timeout (forks p 0) ?p1 c = (child', p2, c2)"
    by (cases "worker_loop worker_id (time p) timeout (forks p 0) ?p1 c") auto
  have "timeout \<le> time p2 - time p"
    using loop by (rule worker_loop_budget)
  then show ?thesis
    using assms by (simp add: worker_process_def fork_def loop Let_def split_beta)
qed

lemma worker_process_fork_failed:
  assumes "forks p 0 < 0"
  shows "worker_process worker_id timeout p c =
           (emit (Perror ''fork failed'') (snd (fork p)), c, Exited 0)"
  using assms by (simp add: worker_process_def fork_def Let_def)

text \<open>
  Claim C2, as the code has it. A painter whose \<^verbatim>\<open>fork\<close> fails reports \<^verbatim>\<open>fork failed\<close> and
  exits at once with status 0: it draws no shape, leaves the canvas as it is and spends
  none of its duration budget. The failure is logged and not escalated.
\<close>

theorem worker_fork_failure:
  assumes "forks p 0 < 0"
  shows "worker_process worker_id timeout p c =
           (emit (Perror ''fork failed'') (snd (fork p)), c, Exited 0) \<and>
         issued p (fst (worker_process worker_id timeout p c)) = [Perror ''fork failed''] \<and>
         time (fst (worker_process worker_id timeout p c)) = time p"
  using assms
  by (simp add: worker_process_fork_failed) (simp add: fork_def time_def emit_def)

lemma forkless_fails: "forks forkless_proc 0 < 0"
  by (simp add: forkless_proc_def)

theorem worker_fork_failure_witness:
  "forks forkless_proc 0 < 0 \<and>
   worker_process 1 8 forkless_proc hash_canvas =
     (emit (Perror ''fork failed'') (snd (fork forkless_proc)), hash_canvas, Exited 0) \<and>
   issued forkless_proc (fst (worker_process 1 8 forkless_proc hash_canvas))
     = [Perror ''fork failed''] \<and>
   time (fst (worker_process 1 8 forkless_proc hash_canvas)) = time forkless_proc"
  using forkless_fails worker_fork_failure [OF forkless_fails, of 1 8 hash_canvas]
  by (rule conjI)

text \<open>
  Claim C2 as stated fails: with a budget of 8 seconds, the painter whose \<^verbatim>\<open>fork\<close> failed
  has drawn nothing and exits before any of the 8 seconds has passed.
\<close>

theorem worker_fork_failure_idle:
  "forks forkless_proc 0 < 0 \<and>
   shapes_drawn (trace (fst (worker_process 0 8 forkless_proc hash_canvas))) = 0 \<and>
   fst (snd (worker_process 0 8 forkless_proc hash_canvas)) = hash_canvas \<and>
   time (fst (worker_process 0 8 forkless_proc hash_canvas)) - time forkless_proc < 8"
  by (simp add: worker_process_fork_failed [OF forkless_fails] forkless_fails)
     (simp add: forkless_proc_def calm_proc_def fork_def time_def emit_def)

section \<open>The supervisor's launch loop\<close>

lemma forks_usleep [simp]: "forks (fst (usleep n p c)) = forks p"
  by (simp add: usleep_def blocked_def)

lemma forks_emit [simp]: "forks (emit e p) = forks p"
  by (simp add: emit_def)

text \<open>
  The loop at index \<open>i\<close>, when the next \<open>k\<close> calls of \<^verbatim>\<open>fork\<close> succeed in the parent and the
  one after them fails.
\<close>

lemma launch_workers_fails:
  assumes "i + k < MAX_WORKERS" and "forks p k < 0" and "\<forall>j<k. 0 < forks p j"
  shows "\<exists>p' c'. launch_workers i workers p c = Inl (p', c', Exited 1) \<and>
           trace p' = trace p @ map (\<lambda>j. Launched (int (i + j)) (forks p j)) [0..<k]
                        @ [Perror ''fork failed'']"
  using assms
proof (induction k arbitrary: i workers p c)
  case 0
  then show ?case
    by (subst launch_workers.simps) (simp add: fork_def)
next
  case (Suc k)
  let ?p1 = "p\<lparr>forks := \<lambda>i. forks p (Suc i)\<rparr>"
  let ?p2 = "fst (usleep 100000 (emit (Launched (int i) (forks p 0)) ?p1) c)"
  let ?c2 = "snd (usleep 100000 (emit (Launched (int i) (forks p 0)) ?p1) c)"
  have pos: "0 < forks p 0"
    using Suc.prems(3) by simp
  have step: "launch_workers i workers p c
              = launch_workers (Suc i) (workers[i := forks p 0]) ?p2 ?c2"
    using Suc.prems(1) pos by (subst launch_workers.simps) (simp add: fork_def split_beta)
  have forks2: "forks ?p2 j = forks p (Suc j)" for j
    by simp
  have "\<exists>p' c'. launch_workers (Suc i) (workers[i := forks p 0]) ?p2 ?c2 = Inl (p', c', Exited 1) \<and>
           trace p' = trace ?p2 @ map (\<lambda>j. Launched (int (Suc i + j)) (forks ?p2 j)) [0..<k]
                        @ [Perror ''fork failed'']"
    using Suc.prems by (intro Suc.IH) (simp_all only: forks2, simp_all)
  then obtain p' c' where res: "launch_workers i workers p c = Inl (p', c', Exited 1)"
    and tr: "trace p' = trace ?p2 @ map (\<lambda>j. Launched (int (Suc i + j)) (forks p (Suc j))) [0..<k]
                        @ [Perror ''fork failed'']"
    unfolding step forks2 by blast
  have "map (\<lambda>j. Launched (int (i + j)) (forks p j)) [0..<Suc k]
        = Launched (int i) (forks p 0)
          # map (\<lambda>j. Launched (int (Suc i + j)) (forks p (Suc j))) [0..<k]"
    by (simp add: map_upt_Suc del: upt_Suc)
  then have "trace p' = trace p @ map (\<lambda>j. Launched (int (i + j)) (forks p j)) [0..<Suc k]
                        @ [Perror ''fork failed'']"
    using tr by (simp add: trace_usleep)
  with res show ?case
    by blast
qed

lemma main_launch_fails:
  assumes "shmat (shmget_result p) p = Some c0"
    and "k < MAX_WORKERS" and "forks p k < 0" and "\<forall>j<k. 0 < forks p j"
  shows "snd (main p) = Exited 1 \<and>
         issued p (fst (main p)) =
           [Stdout (print_canvas (clear_canvas c0)),
            Stdout (''====== ASCII Art Generator ======'' @ [CHR 0x0A])]
           @ map (\<lambda>j. Launched (int j) (forks p j)) [0..<k] @ [Perror ''fork failed'']"
proof -
  let ?p1 = "srand (word_of_int (time p)) p"
  let ?p3 = "emit (Stdout (''====== ASCII Art Generator ======'' @ [CHR 0x0A]))
               (emit (Stdout (print_canvas (clear_canvas c0))) ?p1)"
  have p1: "shmget_result ?p1 = shmget_result p" "shmat s ?p1 = shmat s p" for s
    by (simp_all add: srand_def shmat_def)
  have forks3: "forks ?p3 = forks p" and trace3: "trace ?p3 = trace p @
      [Stdout (print_canvas (clear_canvas c0)),
       Stdout (''====== ASCII Art Generator ======'' @ [CHR 0x0A])]"
    by (simp_all add: srand_def)
  from launch_workers_fails [of 0 k ?p3 "replicate MAX_WORKERS 0" "clear_canvas c0"] assms
  obtain p' c' where res: "launch_workers 0 (replicate MAX_WORKERS 0) ?p3 (clear_canvas c0)
        = Inl (p', c', Exited 1)"
    and tr: "trace p' = trace ?p3 @ map (\<lambda>j. Launched (int j) (forks p j)) [0..<k]
               @ [Perror ''fork failed'']"
    unfolding forks3 by auto
  have "main p = (p', Exited 1)"
    using assms(1) res by (simp add: main_def Let_def p1)
  then show ?thesis
    using tr trace3 by simp
qed

text \<open>
  Claim C4, as the code has it. If a \<^verbatim>\<open>fork\<close> of the launch loop fails, the supervisor
  reports \<^verbatim>\<open>fork failed\<close> and exits with status 1 at once. Its whole output is the blank
  canvas, the title, one line for each painter launched before and the diagnostic: it
  sends no signal to the painters already launched and waits for none of them.
\<close>

theorem launch_failure_aborts:
  assumes "shmat (shmget_result p) p = Some c0"
    and "k < MAX_WORKERS" and "forks p k < 0" and "\<forall>j<k. 0 < forks p j"
  shows "snd (main p) = Exited 1 \<and>
         issued p (fst (main p)) =
           [Stdout (print_canvas (clear_canvas c0)),
            Stdout (''====== ASCII Art Generator ======'' @ [CHR 0x0A])]
           @ map (\<lambda>j. Launched (int j) (forks p j)) [0..<k] @ [Perror ''fork failed''] \<and>
         signals (issued p (fst (main p))) = [] \<and>
         Wait \<notin> set (issued p (fst (main p)))"
proof -
  have "signals (map (\<lambda>j. Launched (int j) (forks p j)) js) = []" for js
    by (induction js) simp_all
  moreover have "Wait \<notin> set (map (\<lambda>j. Launched (int j) (forks p j)) js)" for js
    by auto
  ultimately show ?thesis
    using main_launch_fails [OF assms] by auto
qed

lemma launch_fail_proc_facts:
  "shmat (shmget_result launch_fail_proc) launch_fail_proc = Some hash_canvas"
  "1 < MAX_WORKERS" "forks launch_fail_proc 1 < 0" "\<forall>j<1. 0 < forks launch_fail_proc j"
  by (simp_all add: launch_fail_proc_def calm_proc_def shmat_def MAX_WORKERS_def)

theorem launch_failure_aborts_witness:
  "shmat (shmget_result launch_fail_proc) launch_fail_proc = Some hash_canvas \<and>
   1 < MAX_WORKERS \<and> forks launch_fail_proc 1 < 0 \<and> 0 < forks launch_fail_proc 0 \<and>
   snd (main launch_fail_proc) = Exited 1 \<and>
   signals (issued launch_fail_proc (fst (main launch_fail_proc))) = [] \<and>
   Wait \<notin> set (issued launch_fail_proc (fst (main launch_fail_proc)))"
  using launch_failure_aborts [OF launch_fail_proc_facts] launch_fail_proc_facts
  by simp

text \<open>
  Claim C4 as stated fails: painter 0 has been launched with pid 100 when the second
  \<^verbatim>\<open>fork\<close> fails, and the supervisor exits with status 1 after the diagnostic, with no
  \<^verbatim>\<open>kill\<close> and no \<^verbatim>\<open>wait\<close> in its trace.
\<close>

theorem launch_failure_orphans:
  "snd (main launch_fail_proc) = Exited 1 \<and>
   issued launch_fail_proc (fst (main launch_fail_proc)) =
     [Stdout (print_canvas (clear_canvas hash_canvas)),
      Stdout (''====== ASCII Art Generator ======'' @ [CHR 0x0A]),
      Launched 0 100,
      Perror ''fork failed'']"
  using main_launch_fails [OF launch_fail_proc_facts]
  by (simp add: launch_fail_proc_def)

text \<open>
  Claim C3 on the code. When \<^verbatim>\<open>shmat\<close> maps no memory (as after a failed \<^verbatim>\<open>shmget\<close>), nothing
  tests for it: \<^verbatim>\<open>clear_canvas\<close> stores through the invalid pointer and the process crashes,
  having written no diagnostic. No \<^verbatim>\<open>fork\<close> has been called by then.
\<close>

theorem shm_failure_crashes:
  assumes "shmat (shmget_result p) p = None"
  shows "snd (main p) = Crashed \<and> issued p (fst (main p)) = [] \<and>
         forks (fst (main p)) = forks p"
proof -
  have "shmat (shmget_result (srand s p)) (srand s p) = None" for s
    using assms by (simp add: srand_def shmat_def split: if_splits)
  then have "main p = (srand (word_of_int (time p)) p, Crashed)"
    by (simp add: main_def Let_def)
  then show ?thesis
    by (simp add: srand_def issued_def)
qed

theorem shm_failure_crashes_witness:
  "shmat (shmget_result no_shm_proc) no_shm_proc = None \<and>
   snd (main no_shm_proc) = Crashed \<and> issued no_shm_proc (fst (main no_shm_proc)) = [] \<and>
   forks (fst (main no_shm_proc)) = forks no_shm_proc"
proof -
  have "shmat (shmget_result no_shm_proc) no_shm_proc = None"
    by (simp add: no_shm_proc_def shmat_def)
  then show ?thesis
    using shm_failure_crashes [of no_shm_proc] by blast
qed

section \<open>Interleaved runs\<close>

lemma run_append [simp]: "run (xs @ ys) s = run ys (run xs s)"
  by (induction xs arbitrary: s) simp_all

lemma run_replicate_Suc: "run (replicate (Suc n) a) s = micro_step a (run (replicate n a) s)"
proof -
  have "replicate (Suc n) a = replicate n a @ [a]"
    by (simp add: replicate_append_same)
  then show ?thesis
    by (simp only: run_append run.simps)
qed

lemma cell_index:
  "(k div ART_WIDTH = y \<and> k mod ART_WIDTH = x) \<longleftrightarrow> (y * ART_WIDTH + x = k \<and> x < ART_WIDTH)"
proof -
  have "0 < ART_WIDTH"
    by (simp add: ART_WIDTH_def)
  then show ?thesis
    by (auto simp: div_mult_self3)
qed

lemma cell_paint_cell:
  "cell (paint_cell sh k c) y x =
     (if y * ART_WIDTH + x = k \<and> x < ART_WIDTH \<and> in_circle sh y x \<and>
         y < length c \<and> x < length (c ! y)
      then color sh else cell c y x)"
  using cell_index [of k y x]
  by (auto simp: paint_cell_def Let_def cell_set_cell)

lemma length_paint_cell [simp]:
  "length (paint_cell sh k c) = length c" "length (paint_cell sh k c ! y) = length (c ! y)"
  by (simp_all add: paint_cell_def Let_def)

text \<open>The printer running alone for \<open>n\<close> iterations.\<close>

lemma run_printer:
  assumes "printer s + n \<le> ART_HEIGHT * ART_WIDTH"
  shows "run (replicate n Printer) s =
           s\<lparr>seen := seen s @ map (\<lambda>k. cell (shm s) (k div ART_WIDTH) (k mod ART_WIDTH))
                                 [printer s..<printer s + n],
             printer := printer s + n\<rparr>"
  using assms
proof (induction n)
  case 0
  show ?case by simp
next
  case (Suc n)
  then have "run (replicate n Printer) s =
           s\<lparr>seen := seen s @ map (\<lambda>k. cell (shm s) (k div ART_WIDTH) (k mod ART_WIDTH))
                                 [printer s..<printer s + n],
             printer := printer s + n\<rparr>"
    by simp
  then show ?case
    using Suc.prems unfolding run_replicate_Suc by simp
qed

text \<open>A painter running alone for \<open>n\<close> iterations.\<close>

lemma run_painter:
  assumes "i < length (painters s)" and "painters s ! i = (sh, k)"
    and "k + n \<le> ART_HEIGHT * ART_WIDTH"
  shows "painters (run (replicate n (Painter i)) s) = (painters s)[i := (sh, k + n)] \<and>
         printer (run (replicate n (Painter i)) s) = printer s \<and>
         seen (run (replicate n (Painter i)) s) = seen s \<and>
         length (shm (run (replicate n (Painter i)) s)) = length (shm s) \<and>
         (\<forall>y. length (shm (run (replicate n (Painter i)) s) ! y) = length (shm s ! y)) \<and>
         (\<forall>y x. cell (shm (run (replicate n (Painter i)) s)) y x =
            (if k \<le> y * ART_WIDTH + x \<and> y * ART_WIDTH + x < k + n \<and> x < ART_WIDTH \<and>
                in_circle sh y x \<and> y < length (shm s) \<and> x < length (shm s ! y)
             then color sh else cell (shm s) y x))"
  using assms(3)
proof (induction n)
  case 0
  have "(painters s)[i := (sh, k)] = painters s"
    using assms(1,2) by (simp add: list_update_same_conv)
  then show ?case
    by auto
next
  case (Suc n)
  let ?t = "run (replicate n (Painter i)) s"
  have IH: "painters ?t = (painters s)[i := (sh, k + n)]" "printer ?t = printer s"
    "seen ?t = seen s" "length (shm ?t) = length (shm s)"
    "\<And>y. length (shm ?t ! y) = length (shm s ! y)"
    "\<And>y x. cell (shm ?t) y x =
            (if k \<le> y * ART_WIDTH + x \<and> y * ART_WIDTH + x < k + n \<and> x < ART_WIDTH \<and>
                in_circle sh y x \<and> y < length (shm s) \<and> x < length (shm s ! y)
             then color sh else cell (shm s) y x)"
    using Suc by simp_all
  have step: "micro_step (Painter i) ?t =
      ?t\<lparr>shm := paint_cell sh (k + n) (shm ?t), painters := (painters ?t)[i := (sh, Suc (k + n))]\<rparr>"
    using assms(1) Suc.prems by (simp add: IH(1))
  show ?case
    unfolding run_replicate_Suc step
    using assms(1) by (auto simp: IH cell_paint_cell)
qed

lemma legit_step:
  assumes "legit c0 S s"
  shows "legit c0 S (micro_step a s)"
proof (cases a)
  case Printer
  show ?thesis
  proof (cases "printer s < ART_HEIGHT * ART_WIDTH")
    case True
    then have step: "micro_step a s =
        s\<lparr>seen := seen s @ [cell (shm s) (printer s div ART_WIDTH) (printer s mod ART_WIDTH)],
          printer := Suc (printer s)\<rparr>"
      by (simp add: Printer)
    show ?thesis
      unfolding step using assms
      by (auto simp: legit_def nth_append less_Suc_eq)
  next
    case False
    then show ?thesis
      using assms by (simp add: Printer)
  qed
next
  case (Painter i)
  show ?thesis
  proof (cases "i < length (painters s) \<and> snd (painters s ! i) < ART_HEIGHT * ART_WIDTH")
    case False
    then have "micro_step a s = s"
      by (auto simp: Painter split: prod.splits)
    then show ?thesis
      using assms by simp
  next
    case True
    obtain sh k where shk: "painters s ! i = (sh, k)"
      by (cases "painters s ! i")
    with True have step: "micro_step a s =
        s\<lparr>shm := paint_cell sh k (shm s), painters := (painters s)[i := (sh, Suc k)]\<rparr>"
      by (simp add: Painter)
    have "(sh, k) \<in> set (painters s)"
      using True shk by (metis nth_mem)
    then have col: "color sh \<in> S"
      using assms by (auto simp: legit_def)
    have "set ((painters s)[i := (sh, Suc k)]) \<subseteq> insert (sh, Suc k) (set (painters s))"
      by (rule set_update_subset_insert)
    then have "\<forall>p\<in>set ((painters s)[i := (sh, Suc k)]). color (fst p) \<in> S"
      using assms col by (auto simp: legit_def)
    then show ?thesis
      unfolding step using assms col
      by (simp add: legit_def cell_paint_cell)
  qed
qed

lemma legit_run: "legit c0 S s \<Longrightarrow> legit c0 S (run sched s)"
  by (induction sched arbitrary: s) (simp_all add: legit_step)

lemma legit_start:
  assumes "printer s = 0" and "seen s = []"
  shows "legit (shm s) (color ` fst ` set (painters s)) s"
  using assms by (simp add: legit_def)

text \<open>
  Claim C5, as the code has it. Nothing serialises the stores of the painters and the
  loads of a print: they interleave cell by cell, in any order. Each cell is stored and
  loaded whole, so in every interleaving each cell a print reads holds the value the cell
  had when the print began or the symbol of one of the shapes being drawn meanwhile; the
  print as a whole may mix cells from before and after a shape application.
\<close>

theorem print_sees_old_or_drawn:
  assumes "printer s = 0" and "seen s = []"
  shows "\<forall>k<length (seen (run sched s)).
           seen (run sched s) ! k = cell (shm s) (k div ART_WIDTH) (k mod ART_WIDTH) \<or>
           seen (run sched s) ! k \<in> color ` fst ` set (painters s)"
  using legit_run [OF legit_start [OF assms], of sched]
  by (simp add: legit_def)

lemma in_grid:
  assumes "x < ART_WIDTH"
  shows "y * ART_WIDTH + x < ART_HEIGHT * ART_WIDTH \<longleftrightarrow> y < ART_HEIGHT"
proof
  assume "y < ART_HEIGHT"
  then have "Suc y * ART_WIDTH \<le> ART_HEIGHT * ART_WIDTH"
    by (intro mult_le_mono1) simp
  with assms show "y * ART_WIDTH + x < ART_HEIGHT * ART_WIDTH"
    by simp
next
  assume less: "y * ART_WIDTH + x < ART_HEIGHT * ART_WIDTH"
  show "y < ART_HEIGHT"
  proof (rule ccontr)
    assume "\<not> y < ART_HEIGHT"
    then have "ART_HEIGHT * ART_WIDTH \<le> y * ART_WIDTH"
      by (intro mult_le_mono1) simp
    with less show False
      by simp
  qed
qed

text \<open>
  The steps are the iterations of the loops: a painter that runs alone through all its
  iterations has applied its shape, and a print that runs alone has read the canvas as it
  is; \<^verbatim>\<open>print_canvas\<close> writes these cells row by row between its banners.
\<close>

lemma painter_alone:
  assumes "i < length (painters s)" and "painters s ! i = (sh, 0)"
  shows "shm (run (replicate (ART_HEIGHT * ART_WIDTH) (Painter i)) s) = apply_shape sh (shm s)"
proof -
  note r = run_painter [OF assms, of "ART_HEIGHT * ART_WIDTH", simplified]
  show ?thesis
  proof (rule canvas_eqI)
    show "length (shm (run (replicate (ART_HEIGHT * ART_WIDTH) (Painter i)) s))
          = length (apply_shape sh (shm s))"
      using r by simp
    show "length (shm (run (replicate (ART_HEIGHT * ART_WIDTH) (Painter i)) s) ! y)
          = length (apply_shape sh (shm s) ! y)" for y
      using r by simp
    show "cell (shm (run (replicate (ART_HEIGHT * ART_WIDTH) (Painter i)) s)) y x
          = cell (apply_shape sh (shm s)) y x" for y x
      using r in_grid [of x y] by (auto simp: cell_apply_shape)
  qed
qed

lemma printer_alone:
  assumes "printer s = 0" and "seen s = []"
  shows "seen (run (replicate (ART_HEIGHT * ART_WIDTH) Printer) s) = snapshot_of (shm s)"
  using run_printer [of s "ART_HEIGHT * ART_WIDTH"] assms
  by (simp add: snapshot_of_def)

lemma length_snapshot_of [simp]: "length (snapshot_of c) = ART_HEIGHT * ART_WIDTH"
  by (simp add: snapshot_of_def)

lemma snapshot_row:
  assumes "y < ART_HEIGHT"
  shows "take ART_WIDTH (drop (y * ART_WIDTH) (snapshot_of c)) = map (cell c y) [0..<ART_WIDTH]"
proof -
  have "Suc y * ART_WIDTH \<le> ART_HEIGHT * ART_WIDTH"
    using assms by (intro mult_le_mono1) simp
  then have len: "y * ART_WIDTH + ART_WIDTH \<le> ART_HEIGHT * ART_WIDTH"
    by simp
  show ?thesis
  proof (rule nth_equalityI)
    show "length (take ART_WIDTH (drop (y * ART_WIDTH) (snapshot_of c)))
          = length (map (cell c y) [0..<ART_WIDTH])"
      using len by simp
    fix x
    assume "x < length (take ART_WIDTH (drop (y * ART_WIDTH) (snapshot_of c)))"
    then have x: "x < ART_WIDTH"
      by simp
    then have k: "y * ART_WIDTH + x < ART_HEIGHT * ART_WIDTH"
      using len by simp
    have "(y * ART_WIDTH + x) div ART_WIDTH = y \<and> (y * ART_WIDTH + x) mod ART_WIDTH = x"
      using x by (simp only: cell_index)
    then have "snapshot_of c ! (y * ART_WIDTH + x) = cell c y x"
      using k by (simp add: snapshot_of_def)
    moreover have "y * ART_WIDTH \<le> length (snapshot_of c)"
      using assms by simp
    then have "take ART_WIDTH (drop (y * ART_WIDTH) (snapshot_of c)) ! x
          = snapshot_of c ! (y * ART_WIDTH + x)"
      using x by (simp only: nth_take nth_drop)
    ultimately show "take ART_WIDTH (drop (y * ART_WIDTH) (snapshot_of c)) ! x
          = map (cell c y) [0..<ART_WIDTH] ! x"
      using x by simp
  qed
qed

lemma print_canvas_snapshot:
  "print_canvas c =
     CHR 0x0A # ''====== ASCII ART ======'' @ [CHR 0x0A]
     @ concat (map (\<lambda>y. take ART_WIDTH (drop (y * ART_WIDTH) (snapshot_of c)) @ [CHR 0x0A])
                 [0..<ART_HEIGHT])
     @ ''======================'' @ [CHR 0x0A, CHR 0x0A]"
proof -
  have "map (\<lambda>y. take ART_WIDTH (drop (y * ART_WIDTH) (snapshot_of c)) @ [CHR 0x0A]) [0..<ART_HEIGHT]
        = map (\<lambda>y. map (cell c y) [0..<ART_WIDTH] @ [CHR 0x0A]) [0..<ART_HEIGHT]"
    by (rule map_cong) (simp_all add: snapshot_row)
  then show ?thesis
    by (simp only: print_canvas_rows)
qed

text \<open>
  Interleaving does not bring any other symbol onto the canvas: from the blank canvas,
  whatever the schedule, and also in the middle of shape applications, every cell is blank
  or a symbol of \<open>colors\<close>.
\<close>

lemma alphabet_interleaved:
  assumes "shm s = blank_canvas" and "printer s = 0" and "seen s = []"
    and "\<forall>p\<in>set (painters s). color (fst p) \<in> set colors"
  shows "\<forall>y<ART_HEIGHT. \<forall>x<ART_WIDTH.
           cell (shm (run sched s)) y x = blank \<or> cell (shm (run sched s)) y x \<in> set colors"
proof -
  have "legit blank_canvas (set colors) s"
    using assms by (simp add: legit_def)
  then have "legit blank_canvas (set colors) (run sched s)"
    by (rule legit_run)
  then have "cell (shm (run sched s)) y x = cell blank_canvas y x \<or>
             cell (shm (run sched s)) y x \<in> set colors" for y x
    by (simp add: legit_def)
  then show ?thesis
    by (metis cell_blank_canvas)
qed

section \<open>A torn print\<close>

lemma torn_run:
  "length (seen (run torn_schedule torn_start)) = ART_HEIGHT * ART_WIDTH"
  "seen (run torn_schedule torn_start) ! 3 = blank"
  "seen (run torn_schedule torn_start) ! 52 = CHR ''@''"
  "shm (run torn_schedule torn_start) = apply_shape at_sign_disc blank_canvas"
proof -
  let ?s1 = "run (replicate 4 Printer) torn_start"
  let ?s2 = "run (replicate (ART_HEIGHT * ART_WIDTH) (Painter 0)) ?s1"
  let ?s3 = "run (replicate 746 Printer) ?s2"
  have s1: "?s1 = torn_start\<lparr>seen := map (\<lambda>k. cell blank_canvas (k div ART_WIDTH) (k mod ART_WIDTH))
                                       [0..<4], printer := 4\<rparr>"
    using run_printer [of torn_start 4]
    by (simp add: torn_start_def ART_HEIGHT_def ART_WIDTH_def)
  have p1: "0 < length (painters ?s1)" "painters ?s1 ! 0 = (at_sign_disc, 0)"
    unfolding s1 by (simp_all add: torn_start_def)
  have shm2: "shm ?s2 = apply_shape at_sign_disc blank_canvas"
    using painter_alone [OF p1] unfolding s1 by (simp add: torn_start_def)
  have "0 + ART_HEIGHT * ART_WIDTH \<le> ART_HEIGHT * ART_WIDTH"
    by simp
  note s2 = run_painter [OF p1 this]
  have seen2: "seen ?s2 = map (\<lambda>k. cell blank_canvas (k div ART_WIDTH) (k mod ART_WIDTH)) [0..<4]"
    and printer2: "printer ?s2 = 4"
    using s2 unfolding s1 by simp_all
  have "cell (shm ?s2) (52 div ART_WIDTH) (52 mod ART_WIDTH) = color at_sign_disc"
    unfolding shm2
    by (simp add: cell_apply_shape blank_canvas_def ART_HEIGHT_def ART_WIDTH_def in_circle_def
          at_sign_disc_def)
  then have cell2: "cell (shm ?s2) (52 div ART_WIDTH) (52 mod ART_WIDTH) = CHR ''@''"
    by (simp add: at_sign_disc_def)
  have "printer ?s2 + 746 \<le> ART_HEIGHT * ART_WIDTH"
    unfolding printer2 by (simp add: ART_HEIGHT_def ART_WIDTH_def)
  note s3 = run_printer [OF this]
  have seen3: "seen ?s3 = seen ?s2 @ map (\<lambda>k. cell (shm ?s2) (k div ART_WIDTH) (k mod ART_WIDTH))
                                   [4..<750]"
    unfolding s3 by (simp add: printer2 del: upt_rec_numeral)
  have run: "run torn_schedule torn_start = ?s3"
    by (simp add: torn_schedule_def)
  show "length (seen (run torn_schedule torn_start)) = ART_HEIGHT * ART_WIDTH"
    unfolding run seen3 seen2 by (simp add: ART_HEIGHT_def ART_WIDTH_def del: upt_rec_numeral)
  have "seen ?s3 ! 3 = cell blank_canvas (3 div ART_WIDTH) (3 mod ART_WIDTH)"
    unfolding seen3 seen2 by (simp add: nth_append del: upt_rec_numeral)
  also have "\<dots> = blank"
    by (simp add: cell_blank_canvas ART_HEIGHT_def ART_WIDTH_def)
  finally show "seen (run torn_schedule torn_start) ! 3 = blank"
    unfolding run .
  have "seen ?s3 ! 52 = cell (shm ?s2) (52 div ART_WIDTH) (52 mod ART_WIDTH)"
    unfolding seen3 seen2 by (simp add: nth_append del: upt_rec_numeral)
  then show "seen (run torn_schedule torn_start) ! 52 = CHR ''@''"
    unfolding run using cell2 by simp
  show "shm (run torn_schedule torn_start) = apply_shape at_sign_disc blank_canvas"
    unfolding run s3 using shm2 by simp
qed

lemma snapshot_of_nth:
  "k < ART_HEIGHT * ART_WIDTH \<Longrightarrow> snapshot_of c ! k = cell c (k div ART_WIDTH) (k mod ART_WIDTH)"
  by (simp add: snapshot_of_def)

text \<open>
  Claim C5 as stated fails. In the run \<open>torn_schedule\<close> the shape application and the print
  are both complete; the print, 750 cells, shows cell 3 (row 0, column 3) blank, as before
  the disc was drawn, and cell 52 (row 1, column 2) with the disc's symbol, as after: what
  it has read is neither the canvas before the shape application nor the canvas after it.
\<close>

theorem torn_snapshot:
  "shm (run torn_schedule torn_start) = apply_shape at_sign_disc blank_canvas \<and>
   length (seen (run torn_schedule torn_start)) = ART_HEIGHT * ART_WIDTH \<and>
   seen (run torn_schedule torn_start) ! 3 = blank \<and>
   snapshot_of (apply_shape at_sign_disc blank_canvas) ! 3 = CHR ''@'' \<and>
   seen (run torn_schedule torn_start) ! 52 = CHR ''@'' \<and>
   snapshot_of blank_canvas ! 52 = blank \<and>
   seen (run torn_schedule torn_start) \<noteq> snapshot_of blank_canvas \<and>
   seen (run torn_schedule torn_start) \<noteq> snapshot_of (apply_shape at_sign_disc blank_canvas)"
proof -
  have in_grid: "3 < ART_HEIGHT * ART_WIDTH" "52 < ART_HEIGHT * ART_WIDTH"
    by (simp_all add: ART_HEIGHT_def ART_WIDTH_def)
  have "cell (apply_shape at_sign_disc blank_canvas) (3 div ART_WIDTH) (3 mod ART_WIDTH)
        = color at_sign_disc"
    by (simp add: cell_apply_shape ART_HEIGHT_def ART_WIDTH_def in_circle_def at_sign_disc_def
          blank_canvas_def)
  then have new: "snapshot_of (apply_shape at_sign_disc blank_canvas) ! 3 = CHR ''@''"
    by (simp add: snapshot_of_nth [OF in_grid(1)] at_sign_disc_def)
  have "cell blank_canvas (52 div ART_WIDTH) (52 mod ART_WIDTH) = blank"
    by (simp add: cell_blank_canvas ART_HEIGHT_def ART_WIDTH_def)
  then have old: "snapshot_of blank_canvas ! 52 = blank"
    by (simp add: snapshot_of_nth [OF in_grid(2)])
  have "blank \<noteq> CHR ''@''"
    by (simp add: blank_def)
  then have "seen (run torn_schedule torn_start) \<noteq> snapshot_of blank_canvas"
    and "seen (run torn_schedule torn_start) \<noteq> snapshot_of (apply_shape at_sign_disc blank_canvas)"
    using torn_run(2,3) new old by metis+
  then show ?thesis
    using torn_run new old by simp
qed

theorem print_sees_old_or_drawn_witness:
  "printer torn_start = 0 \<and> seen torn_start = [] \<and>
   (seen (run torn_schedule torn_start) ! 52 = cell (shm torn_start) (52 div ART_WIDTH) (52 mod ART_WIDTH) \<or>
    seen (run torn_schedule torn_start) ! 52 \<in> color ` fst ` set (painters torn_start))"
proof -
  have start: "printer torn_start = 0" "seen torn_start = []"
    by (simp_all add: torn_start_def)
  have "52 < length (seen (run torn_schedule torn_start))"
    by (simp add: torn_run(1) ART_HEIGHT_def ART_WIDTH_def)
  with print_sees_old_or_drawn [OF start, of torn_schedule] start show ?thesis
    by blast
qed

end
